theory Spec2Isabelle
  imports Complex_Main "HOL-Library.Word"
begin

unbundle bit_operations_syntax

section \<open>Data model of cweno.c\<close>

text \<open>
  The extension module works on numpy arrays of C doubles through raw pointers.
  An array object is a record of its flag word, its dimensions, its strides and the
  memory its data pointer points into.  Pointers are offsets from the data pointer,
  counted in doubles (numpy counts strides in bytes; a double has eight).  The memory
  is a partial map: an offset outside its domain is not allocated, and the C code
  reading or writing there has no defined behaviour, which the model reports as the
  fault \<open>OutOfBounds\<close>.

  The arithmetic of doubles is a parameter of the model.  The dot product is defined
  for any type with an addition and a multiplication, so that what is proved of it uses
  no law of arithmetic.  The weights take a record of the operations they use: the value
  of a decimal constant, addition, multiplication and division.  Nothing is assumed of
  these operations: in IEEE arithmetic each of them rounds, may overflow to an infinity
  or underflow to zero, and a division by zero gives an infinity or a NaN with which
  the computation goes on.  So no operation on doubles stops the model, and a statement
  about the values of the weights names the properties of the operations it relies on.

  The C types \<open>long\<close> and \<open>npy_intp\<close> are modelled by unbounded integers; an
  assignment to an \<open>int\<close> variable truncates to 32 bits (\<open>c_int\<close>).
  The array objects passed to one call are taken to be distinct objects.
\<close>

datatype fault = OutOfBounds

datatype pyreturn = Py_None | TypeError string

type_synonym 'a buffer = "int \<Rightarrow> 'a option"

record 'a ndarray =
  flags :: "32 word"
  dims :: "int list"
  strides :: "int list"
  data :: "'a buffer"

definition load :: "'a buffer \<Rightarrow> int \<Rightarrow> fault + 'a" where
  "load m p = (case m p of None \<Rightarrow> Inl OutOfBounds | Some x \<Rightarrow> Inr x)"

definition store :: "'a buffer \<Rightarrow> int \<Rightarrow> 'a \<Rightarrow> fault + 'a buffer" where
  "store m p x = (case m p of None \<Rightarrow> Inl OutOfBounds | Some y \<Rightarrow> Inr (m(p \<mapsto> x)))"

definition c_int :: "int \<Rightarrow> int" where
  "c_int x = sint (word_of_int x :: 32 word)"

text \<open>
  The macros of numpy's \<open>ndarrayobject.h\<close>, which is not part of this repository:
  \<open>NPY_IN_ARRAY\<close> is \<open>NPY_CONTIGUOUS | NPY_ALIGNED\<close>, \<open>PyArray_DIM\<close> reads
  one dimension and \<open>PyArray_GETPTRn\<close> adds index times stride for the first
  \<open>n\<close> axes.
\<close>

definition NPY_CONTIGUOUS :: "32 word" where
  "NPY_CONTIGUOUS = 0x0001"

definition NPY_ALIGNED :: "32 word" where
  "NPY_ALIGNED = 0x0100"

definition NPY_IN_ARRAY :: "32 word" where
  "NPY_IN_ARRAY = NPY_CONTIGUOUS OR NPY_ALIGNED"

definition PyArray_DIM :: "'a ndarray \<Rightarrow> nat \<Rightarrow> fault + int" where
  "PyArray_DIM a d = (if d < length (dims a) then Inr (dims a ! d) else Inl OutOfBounds)"

definition PyArray_GETPTR1 :: "'a ndarray \<Rightarrow> int \<Rightarrow> fault + int" where
  "PyArray_GETPTR1 a i =
     (if 1 \<le> length (strides a) then Inr (i * strides a ! 0) else Inl OutOfBounds)"

definition PyArray_GETPTR2 :: "'a ndarray \<Rightarrow> int \<Rightarrow> int \<Rightarrow> fault + int" where
  "PyArray_GETPTR2 a i j =
     (if 2 \<le> length (strides a) then Inr (i * strides a ! 0 + j * strides a ! 1)
      else Inl OutOfBounds)"

definition PyArray_GETPTR3 :: "'a ndarray \<Rightarrow> int \<Rightarrow> int \<Rightarrow> int \<Rightarrow> fault + int" where
  "PyArray_GETPTR3 a i j l =
     (if 3 \<le> length (strides a)
      then Inr (i * strides a ! 0 + j * strides a ! 1 + l * strides a ! 2)
      else Inl OutOfBounds)"

definition PyArray_GETPTR4 :: "'a ndarray \<Rightarrow> int \<Rightarrow> int \<Rightarrow> int \<Rightarrow> int \<Rightarrow> fault + int" where
  "PyArray_GETPTR4 a i j l m =
     (if 4 \<le> length (strides a)
      then Inr (i * strides a ! 0 + j * strides a ! 1 + l * strides a ! 2 + m * strides a ! 3)
      else Inl OutOfBounds)"

section \<open>dot\<close>

text \<open>
  \<^verbatim>\<open>d = *u * *v; for (i=1; i<n; i++) { u++; v += s; d += *u * *v; } return d;\<close>
  The vector \<open>u\<close> lives in the memory \<open>um\<close>, the vector \<open>v\<close> in \<open>vm\<close>.
\<close>

function dot_loop ::
  "('a::{plus,times}) buffer \<Rightarrow> 'a buffer \<Rightarrow> int \<Rightarrow> int \<Rightarrow> int \<Rightarrow> int \<Rightarrow> int \<Rightarrow> 'a \<Rightarrow> fault + 'a"
where
  "dot_loop um vm u v n s i d =
     (if i < n then
        (case load um (u + 1) of
           Inl e \<Rightarrow> Inl e
         | Inr a \<Rightarrow>
             (case load vm (v + s) of
                Inl e \<Rightarrow> Inl e
              | Inr b \<Rightarrow> dot_loop um vm (u + 1) (v + s) n s (i + 1) (d + a * b)))
      else Inr d)"
  by pat_completeness auto
termination
  by (relation "measure (\<lambda>(um, vm, u, v, n, s, i, d). nat (n - i))") auto

declare dot_loop.simps [simp del]

definition dot ::
  "('a::{plus,times}) buffer \<Rightarrow> 'a buffer \<Rightarrow> int \<Rightarrow> int \<Rightarrow> int \<Rightarrow> int \<Rightarrow> fault + 'a"
where
  "dot um vm u v n s =
     (case load um u of
        Inl e \<Rightarrow> Inl e
      | Inr a \<Rightarrow>
          (case load vm v of
             Inl e \<Rightarrow> Inl e
           | Inr b \<Rightarrow> dot_loop um vm u v n s 1 (a * b)))"

text \<open>The sum the loop forms, left to right, from what the two memories hold.\<close>

definition dot_sum :: "('a::{plus,times}) buffer \<Rightarrow> 'a buffer \<Rightarrow> int \<Rightarrow> int \<Rightarrow> int \<Rightarrow> int \<Rightarrow> 'a" where
  "dot_sum um vm u v n s =
     foldl (\<lambda>d j. d + the (um (u + j)) * the (vm (v + j * s)))
       (the (um u) * the (vm v)) [1..n - 1]"

section \<open>weights: the range of shifts\<close>

text \<open>
  \<^verbatim>\<open>rmin = max(0, i-(N-k)-1); rmax = min(k-1, i);\<close>
  with \<open>N\<close> and \<open>i\<close> of type \<open>long\<close> and \<open>k\<close>, \<open>rmin\<close>, \<open>rmax\<close> of type \<open>int\<close>.
\<close>

definition weights_rmin :: "int \<Rightarrow> int \<Rightarrow> int \<Rightarrow> int" where
  "weights_rmin N k i = c_int (max 0 (i - (N - k) - 1))"

definition weights_rmax :: "int \<Rightarrow> int \<Rightarrow> int" where
  "weights_rmax k i = c_int (min (k - 1) i)"

section \<open>weights\<close>

text \<open>
  The arithmetic of doubles that weights uses: the value of a decimal constant of the
  source, and the operations \<^verbatim>\<open>+\<close>, \<^verbatim>\<open>*\<close> and \<^verbatim>\<open>/\<close>.  The functions below take
  it as an argument and assume nothing of it.
\<close>

record 'a arith =
  flit :: "rat \<Rightarrow> 'a"
  fadd :: "'a \<Rightarrow> 'a \<Rightarrow> 'a"
  fmul :: "'a \<Rightarrow> 'a \<Rightarrow> 'a"
  fdiv :: "'a \<Rightarrow> 'a \<Rightarrow> 'a"

text \<open>
  \<^verbatim>\<open>return *w / ( (10e-6 + *s) * (10e-6 + *s) );\<close>
  The constant \<^verbatim>\<open>10e-6\<close> is ten times ten to the minus six.
\<close>

definition alpha :: "'a arith \<Rightarrow> 'a buffer \<Rightarrow> int \<Rightarrow> 'a buffer \<Rightarrow> int \<Rightarrow> fault + 'a" where
  "alpha ar wm w sm s =
     (case load wm w of
        Inl e \<Rightarrow> Inl e
      | Inr wv \<Rightarrow>
          (case load sm s of
             Inl e \<Rightarrow> Inl e
           | Inr sv \<Rightarrow>
               Inr (fdiv ar wv
                      (fmul ar (fadd ar (flit ar (10 / 10 ^ 6)) sv)
                               (fadd ar (flit ar (10 / 10 ^ 6)) sv)))))"

text \<open>
  \<^verbatim>\<open>for (r=rmin; r<=rmax; r++) { *wr = alpha(w, sigma); sum_alpha += *wr; wr++; w++; sigma++; }\<close>
\<close>

function weights_alpha_loop ::
  "'a arith \<Rightarrow> 'a buffer \<Rightarrow> 'a buffer \<Rightarrow> int \<Rightarrow> int \<Rightarrow> int \<Rightarrow> int \<Rightarrow> int \<Rightarrow> 'a buffer \<Rightarrow> 'a
   \<Rightarrow> fault + ('a buffer \<times> 'a)"
where
  "weights_alpha_loop ar wm sm r rmax w wr sigma wrm sum_alpha =
     (if r \<le> rmax then
        (case alpha ar wm w sm sigma of
           Inl e \<Rightarrow> Inl e
         | Inr a \<Rightarrow>
             (case store wrm wr a of
                Inl e \<Rightarrow> Inl e
              | Inr wrm' \<Rightarrow>
                  (case load wrm' wr of
                     Inl e \<Rightarrow> Inl e
                   | Inr x \<Rightarrow>
                       weights_alpha_loop ar wm sm (r + 1) rmax (w + 1) (wr + 1) (sigma + 1)
                         wrm' (fadd ar sum_alpha x))))
      else Inr (wrm, sum_alpha))"
  by pat_completeness auto
termination
  by (relation
      "measure (\<lambda>(ar, wm, sm, r, rmax, w, wr, sigma, wrm, sum_alpha). nat (rmax + 1 - r))")
    auto

declare weights_alpha_loop.simps [simp del]

text \<open>
  \<^verbatim>\<open>for (r=rmin; r<=rmax; r++) { *wr /= sum_alpha; wr++; }\<close>
  The division is carried out whatever \<open>sum_alpha\<close> is.
\<close>

function weights_norm_loop ::
  "'a arith \<Rightarrow> int \<Rightarrow> int \<Rightarrow> int \<Rightarrow> 'a buffer \<Rightarrow> 'a \<Rightarrow> fault + 'a buffer"
where
  "weights_norm_loop ar r rmax wr wrm sum_alpha =
     (if r \<le> rmax then
        (case load wrm wr of
           Inl e \<Rightarrow> Inl e
         | Inr x \<Rightarrow>
             (case store wrm wr (fdiv ar x sum_alpha) of
                Inl e \<Rightarrow> Inl e
              | Inr wrm' \<Rightarrow> weights_norm_loop ar (r + 1) rmax (wr + 1) wrm' sum_alpha))
      else Inr wrm)"
  by pat_completeness auto
termination
  by (relation "measure (\<lambda>(ar, r, rmax, wr, wrm, sum_alpha). nat (rmax + 1 - r))") auto

declare weights_norm_loop.simps [simp del]

text \<open>
  The loop over the cells:
  \<^verbatim>\<open>for (i=imin; i<=imax; i++) { sum_alpha = 0.0; rmin = ...; rmax = ...;
     w = GETPTR2(w_py, i, rmin); wr = GETPTR2(wr_py, i, rmin); sigma = GETPTR2(sigma_py, i, rmin);
     ...; wr = GETPTR2(wr_py, i, rmin); ... }\<close>
  The second loop over the shifts starts from the pointer \<open>wr\<close> of the first: the
  strides of \<open>wr_py\<close> have not changed.
\<close>

function weights_cells ::
  "'a arith \<Rightarrow> 'a ndarray \<Rightarrow> 'a ndarray \<Rightarrow> int \<Rightarrow> int \<Rightarrow> int \<Rightarrow> int \<Rightarrow> 'a ndarray
   \<Rightarrow> fault + 'a ndarray"
where
  "weights_cells ar sigma_py w_py N k i imax wr_py =
     (if i \<le> imax then
        (let rmin = weights_rmin N k i; rmax = weights_rmax k i in
         case PyArray_GETPTR2 w_py i rmin of
           Inl e \<Rightarrow> Inl e
         | Inr w \<Rightarrow>
         (case PyArray_GETPTR2 wr_py i rmin of
           Inl e \<Rightarrow> Inl e
         | Inr wr \<Rightarrow>
         (case PyArray_GETPTR2 sigma_py i rmin of
           Inl e \<Rightarrow> Inl e
         | Inr sigma \<Rightarrow>
         (case weights_alpha_loop ar (data w_py) (data sigma_py) rmin rmax w wr sigma
                 (data wr_py) (flit ar 0) of
           Inl e \<Rightarrow> Inl e
         | Inr (wrm, sum_alpha) \<Rightarrow>
         (case weights_norm_loop ar rmin rmax wr wrm sum_alpha of
           Inl e \<Rightarrow> Inl e
         | Inr wrm' \<Rightarrow>
             weights_cells ar sigma_py w_py N k (i + 1) imax (wr_py\<lparr>data := wrm'\<rparr>))))))
      else Inr wr_py)"
  by pat_completeness auto
termination
  by (relation "measure (\<lambda>(ar, sigma_py, w_py, N, k, i, imax, wr_py). nat (imax + 1 - i))")
    auto

declare weights_cells.simps [simp del]

text \<open>
  The entry point, after \<open>PyArg_ParseTuple\<close> has delivered \<open>imin\<close>, \<open>imax\<close> and
  the three objects (when it fails the function returns before anything else happens).
  The result is what is returned to Python together with the array \<open>wr\<close> as the call
  leaves it.
\<close>

definition weights ::
  "'a arith \<Rightarrow> int \<Rightarrow> int \<Rightarrow> 'a ndarray \<Rightarrow> 'a ndarray \<Rightarrow> 'a ndarray
   \<Rightarrow> fault + (pyreturn \<times> 'a ndarray)"
where
  "weights ar imin imax sigma_py w_py wr_py =
     (if flags sigma_py AND NPY_IN_ARRAY \<noteq> NPY_IN_ARRAY
      then Inr (TypeError ''sigma is not contiguous and/or aligned'', wr_py)
      else if flags w_py AND NPY_IN_ARRAY \<noteq> NPY_IN_ARRAY
      then Inr (TypeError ''w is not contiguous and/or aligned'', wr_py)
      else if flags wr_py AND NPY_IN_ARRAY \<noteq> NPY_IN_ARRAY
      then Inr (TypeError ''wr is not contiguous and/or aligned'', wr_py)
      else
        (case PyArray_DIM w_py 0 of
           Inl e \<Rightarrow> Inl e
         | Inr N \<Rightarrow>
         (case PyArray_DIM w_py 1 of
           Inl e \<Rightarrow> Inl e
         | Inr k \<Rightarrow>
         (case weights_cells ar sigma_py w_py N (c_int k) imin imax wr_py of
           Inl e \<Rightarrow> Inl e
         | Inr wr_py' \<Rightarrow> Inr (Py_None, wr_py')))))"

section \<open>reconstruct\<close>

text \<open>
  The k-order reconstructions:
  \<^verbatim>\<open>for (l=0; l<n; l++) { *qr = dot(c, q, k, q_stride); c += k; qr++; }\<close>
\<close>

function reconstruct_qr_l_loop ::
  "('a::{plus,times}) buffer \<Rightarrow> 'a buffer \<Rightarrow> int \<Rightarrow> int \<Rightarrow> int \<Rightarrow> int \<Rightarrow> int \<Rightarrow> int \<Rightarrow> int
   \<Rightarrow> 'a buffer \<Rightarrow> fault + 'a buffer"
where
  "reconstruct_qr_l_loop cm qm k q_stride n l q c qr qrm =
     (if l < n then
        (case dot cm qm c q k q_stride of
           Inl e \<Rightarrow> Inl e
         | Inr d \<Rightarrow>
             (case store qrm qr d of
                Inl e \<Rightarrow> Inl e
              | Inr qrm' \<Rightarrow>
                  reconstruct_qr_l_loop cm qm k q_stride n (l + 1) q (c + k) (qr + 1) qrm'))
      else Inr qrm)"
  by pat_completeness auto
termination
  by (relation "measure (\<lambda>(cm, qm, k, q_stride, n, l, q, c, qr, qrm). nat (n - l))") auto

declare reconstruct_qr_l_loop.simps [simp del]

text \<open>
  \<^verbatim>\<open>for (r=rmin; r<rmax+1; r++) { q = GETPTR1(q_py, i-r); c = GETPTR4(c_py, i, r, 0, 0);
     qr = GETPTR3(qr_py, i, r, 0); ... }\<close>
\<close>

function reconstruct_qr_r_loop ::
  "('a::{plus,times}) ndarray \<Rightarrow> 'a ndarray \<Rightarrow> int \<Rightarrow> int \<Rightarrow> int \<Rightarrow> int \<Rightarrow> int \<Rightarrow> int
   \<Rightarrow> 'a ndarray \<Rightarrow> fault + 'a ndarray"
where
  "reconstruct_qr_r_loop q_py c_py k q_stride n i r rmax qr_py =
     (if r < rmax + 1 then
        (case PyArray_GETPTR1 q_py (i - r) of
           Inl e \<Rightarrow> Inl e
         | Inr q \<Rightarrow>
         (case PyArray_GETPTR4 c_py i r 0 0 of
           Inl e \<Rightarrow> Inl e
         | Inr c \<Rightarrow>
         (case PyArray_GETPTR3 qr_py i r 0 of
           Inl e \<Rightarrow> Inl e
         | Inr qr \<Rightarrow>
         (case reconstruct_qr_l_loop (data c_py) (data q_py) k q_stride n 0 q c qr
                 (data qr_py) of
           Inl e \<Rightarrow> Inl e
         | Inr qrm \<Rightarrow>
             reconstruct_qr_r_loop q_py c_py k q_stride n i (r + 1) rmax
               (qr_py\<lparr>data := qrm\<rparr>)))))
      else Inr qr_py)"
  by pat_completeness auto
termination
  by (relation "measure (\<lambda>(q_py, c_py, k, q_stride, n, i, r, rmax, qr_py). nat (rmax + 1 - r))")
    auto

declare reconstruct_qr_r_loop.simps [simp del]

text \<open>
  \<^verbatim>\<open>for (i=imin; i<=imax; i++) { rmin = max(0, s); rmax = min(k-1+s, k-1); ... }\<close>
\<close>

function reconstruct_qr_cells ::
  "('a::{plus,times}) ndarray \<Rightarrow> 'a ndarray \<Rightarrow> int \<Rightarrow> int \<Rightarrow> int \<Rightarrow> int \<Rightarrow> int \<Rightarrow> int
   \<Rightarrow> 'a ndarray \<Rightarrow> fault + 'a ndarray"
where
  "reconstruct_qr_cells q_py c_py k q_stride n s i imax qr_py =
     (if i \<le> imax then
        (let rmin = max 0 s; rmax = min (k - 1 + s) (k - 1) in
         case reconstruct_qr_r_loop q_py c_py k q_stride n i rmin rmax qr_py of
           Inl e \<Rightarrow> Inl e
         | Inr qr_py' \<Rightarrow> reconstruct_qr_cells q_py c_py k q_stride n s (i + 1) imax qr_py')
      else Inr qr_py)"
  by pat_completeness auto
termination
  by (relation "measure (\<lambda>(q_py, c_py, k, q_stride, n, s, i, imax, qr_py). nat (imax + 1 - i))")
    auto

declare reconstruct_qr_cells.simps [simp del]

text \<open>
  The 2k-1 order reconstructions:
  \<^verbatim>\<open>for (l=0; l<n; l++) { *qs = dot(wr, qr, k, n); qs += q_stride; qr++; }\<close>
\<close>

function reconstruct_qs_l_loop ::
  "('a::{plus,times}) buffer \<Rightarrow> 'a buffer \<Rightarrow> int \<Rightarrow> int \<Rightarrow> int \<Rightarrow> int \<Rightarrow> int \<Rightarrow> int \<Rightarrow> int
   \<Rightarrow> 'a buffer \<Rightarrow> fault + 'a buffer"
where
  "reconstruct_qs_l_loop wrm qrm k n q_stride l wr qs qr qsm =
     (if l < n then
        (case dot wrm qrm wr qr k n of
           Inl e \<Rightarrow> Inl e
         | Inr d \<Rightarrow>
             (case store qsm qs d of
                Inl e \<Rightarrow> Inl e
              | Inr qsm' \<Rightarrow>
                  reconstruct_qs_l_loop wrm qrm k n q_stride (l + 1) wr (qs + q_stride)
                    (qr + 1) qsm'))
      else Inr qsm)"
  by pat_completeness auto
termination
  by (relation "measure (\<lambda>(wrm, qrm, k, n, q_stride, l, wr, qs, qr, qsm). nat (n - l))") auto

declare reconstruct_qs_l_loop.simps [simp del]

text \<open>
  \<^verbatim>\<open>for (i=imin; i<=imax; i++) { qs = GETPTR2(qs_py, i, 0); qr = GETPTR3(qr_py, i, 0, 0);
     ...; wr += k; }\<close>
\<close>

function reconstruct_qs_cells ::
  "('a::{plus,times}) buffer \<Rightarrow> 'a ndarray \<Rightarrow> int \<Rightarrow> int \<Rightarrow> int \<Rightarrow> int \<Rightarrow> int \<Rightarrow> int
   \<Rightarrow> 'a ndarray \<Rightarrow> fault + 'a ndarray"
where
  "reconstruct_qs_cells wrm qr_py k n q_stride i imax wr qs_py =
     (if i \<le> imax then
        (case PyArray_GETPTR2 qs_py i 0 of
           Inl e \<Rightarrow> Inl e
         | Inr qs \<Rightarrow>
         (case PyArray_GETPTR3 qr_py i 0 0 of
           Inl e \<Rightarrow> Inl e
         | Inr qr \<Rightarrow>
         (case reconstruct_qs_l_loop wrm (data qr_py) k n q_stride 0 wr qs qr (data qs_py) of
           Inl e \<Rightarrow> Inl e
         | Inr qsm \<Rightarrow>
             reconstruct_qs_cells wrm qr_py k n q_stride (i + 1) imax (wr + k)
               (qs_py\<lparr>data := qsm\<rparr>))))
      else Inr qs_py)"
  by pat_completeness auto
termination
  by (relation "measure (\<lambda>(wrm, qr_py, k, n, q_stride, i, imax, wr, qs_py). nat (imax + 1 - i))")
    auto

declare reconstruct_qs_cells.simps [simp del]

text \<open>
  The entry point, after \<open>PyArg_ParseTuple\<close>.  The result is what is returned to
  Python together with the arrays \<open>qr\<close> and \<open>qs\<close> as the call leaves them.
\<close>

definition reconstruct ::
  "('a::{plus,times}) ndarray \<Rightarrow> int \<Rightarrow> int \<Rightarrow> int \<Rightarrow> 'a ndarray \<Rightarrow> 'a ndarray \<Rightarrow> 'a ndarray
   \<Rightarrow> 'a ndarray \<Rightarrow> fault + (pyreturn \<times> 'a ndarray \<times> 'a ndarray)"
where
  "reconstruct q_py s imin imax c_py wr_py qr_py qs_py =
     (if flags c_py AND NPY_IN_ARRAY \<noteq> NPY_IN_ARRAY
      then Inr (TypeError ''c is not contiguous and/or aligned'', qr_py, qs_py)
      else if flags wr_py AND NPY_IN_ARRAY \<noteq> NPY_IN_ARRAY
      then Inr (TypeError ''wr is not contiguous and/or aligned'', qr_py, qs_py)
      else if flags qr_py AND NPY_IN_ARRAY \<noteq> NPY_IN_ARRAY
      then Inr (TypeError ''qr is not contiguous and/or aligned'', qr_py, qs_py)
      else
        (case PyArray_DIM c_py 0 of
           Inl e \<Rightarrow> Inl e
         | Inr N \<Rightarrow>
         (case PyArray_DIM c_py 1 of
           Inl e \<Rightarrow> Inl e
         | Inr k' \<Rightarrow>
         (case PyArray_DIM c_py 2 of
           Inl e \<Rightarrow> Inl e
         | Inr n' \<Rightarrow>
         (case PyArray_GETPTR1 q_py 1 of
           Inl e \<Rightarrow> Inl e
         | Inr q1 \<Rightarrow>
         (case PyArray_GETPTR1 q_py 0 of
           Inl e \<Rightarrow> Inl e
         | Inr q0 \<Rightarrow>
         (case reconstruct_qr_cells q_py c_py (c_int k') (c_int (q1 - q0)) (c_int n') s
                 imin imax qr_py of
           Inl e \<Rightarrow> Inl e
         | Inr qr_py' \<Rightarrow>
         (case PyArray_GETPTR2 qs_py imin 1 of
           Inl e \<Rightarrow> Inl e
         | Inr qs1 \<Rightarrow>
         (case PyArray_GETPTR2 qs_py imin 0 of
           Inl e \<Rightarrow> Inl e
         | Inr qs0 \<Rightarrow>
         (case PyArray_GETPTR2 wr_py imin 0 of
           Inl e \<Rightarrow> Inl e
         | Inr wr \<Rightarrow>
         (case reconstruct_qs_cells (data wr_py) qr_py' (c_int k') (c_int n')
                 (c_int (qs1 - qs0)) imin imax wr qs_py of
           Inl e \<Rightarrow> Inl e
         | Inr qs_py' \<Rightarrow> Inr (Py_None, qr_py', qs_py'))))))))))))"

section \<open>Arrays for the worked examples\<close>

text \<open>
  A C-contiguous, aligned array as numpy allocates it: the strides of the shape in
  doubles, the data pointer at the start of a buffer holding the elements in row-major
  order.
\<close>

definition buffer_of :: "'a list \<Rightarrow> 'a buffer" where
  "buffer_of xs p = (if 0 \<le> p \<and> p < int (length xs) then Some (xs ! nat p) else None)"

fun c_strides :: "int list \<Rightarrow> int list" where
  "c_strides [] = []"
| "c_strides (d # ds) = prod_list ds # c_strides ds"

definition c_array :: "int list \<Rightarrow> 'a list \<Rightarrow> 'a ndarray" where
  "c_array shape xs =
     \<lparr>flags = NPY_IN_ARRAY, dims = shape, strides = c_strides shape, data = buffer_of xs\<rparr>"

text \<open>
  Three cells, \<open>k = 2\<close>, one point per cell.  The cell averages \<open>1, 2, 4\<close> are the
  first column of a 3 by 2 array: a view of stride 2 that is aligned and not contiguous.
\<close>

definition ex_q :: "real ndarray" where
  "ex_q = \<lparr>flags = NPY_ALIGNED, dims = [3], strides = [2],
           data = buffer_of [1, 0, 2, 0, 4, 0]\<rparr>"

definition ex_c :: "real ndarray" where
  "ex_c = c_array [3, 2, 1, 2] [0, 0, 0, 0, 1, 2, 3, 5, 0, 0, 0, 0]"

definition ex_wr :: "real ndarray" where
  "ex_wr = c_array [3, 2] [0, 0, 1 / 4, 3 / 4, 0, 0]"

definition ex_qr :: "real ndarray" where
  "ex_qr = c_array [3, 2, 1] [0, 0, 0, 0, 0, 0]"

definition ex_qs :: "real ndarray" where
  "ex_qs = c_array [3, 1] [0, 0, 0]"

text \<open>
  The left boundary cell of the same grid, reconstructed with \<open>s = -1\<close> so that only
  the shift 0 is computed; the scratch array \<open>qr\<close> still holds 7 at cell 0, shift 1.
\<close>

definition bd_q :: "real ndarray" where
  "bd_q = c_array [3] [1, 2, 4]"

definition bd_c :: "real ndarray" where
  "bd_c = c_array [3, 2, 1, 2] [1, 2, 0, 0, 0, 0, 0, 0, 0, 0, 0, 0]"

definition bd_wr :: "real ndarray" where
  "bd_wr = c_array [3, 2] [1, 0, 0, 0, 0, 0]"

definition bd_qr :: "real ndarray" where
  "bd_qr = c_array [3, 2, 1] [0, 7, 0, 0, 0, 0]"

section \<open>The weights as the specification states them\<close>

text \<open>
  The specification's formula for the weight before normalisation,
  \<open>alpha_r = w[i,r] / (\<epsilon> + sigma[i,r])\<^sup>2\<close> with \<open>\<epsilon> = 1e-5\<close>, to be compared with
  \<open>alpha\<close> above; the square is the product of the sum with itself.  Then the shifts
  \<open>r\<close> of cell \<open>i\<close> that the loop of weights visits, and the sum of the formula over
  them, accumulated from \<open>0.0\<close> in the order of the shifts, for arrays that hold
  \<open>W i r\<close> and \<open>S i r\<close> at \<open>[i, r]\<close>.
\<close>

definition alpha_spec :: "'a arith \<Rightarrow> 'a \<Rightarrow> 'a \<Rightarrow> 'a" where
  "alpha_spec ar wv sv =
     fdiv ar wv (fmul ar (fadd ar (flit ar (1 / 100000)) sv) (fadd ar (flit ar (1 / 100000)) sv))"

definition admissible :: "int \<Rightarrow> int \<Rightarrow> int \<Rightarrow> int \<Rightarrow> bool" where
  "admissible N k i r = (weights_rmin N k i \<le> r \<and> r \<le> weights_rmax k i)"

definition alpha_sum ::
  "'a arith \<Rightarrow> int \<Rightarrow> int \<Rightarrow> (int \<Rightarrow> int \<Rightarrow> 'a) \<Rightarrow> (int \<Rightarrow> int \<Rightarrow> 'a) \<Rightarrow> int \<Rightarrow> 'a"
where
  "alpha_sum ar N k W S i =
     foldl (fadd ar) (flit ar 0)
       (map (\<lambda>r. alpha_spec ar (W i r) (S i r)) [weights_rmin N k i..weights_rmax k i])"

text \<open>An array that passes the layout check and has the strides of its shape.\<close>

definition c_layout :: "'a ndarray \<Rightarrow> int list \<Rightarrow> bool" where
  "c_layout a shape =
     (flags a AND NPY_IN_ARRAY = NPY_IN_ARRAY \<and> dims a = shape \<and> strides a = c_strides shape)"

section \<open>Three arithmetics\<close>

text \<open>
  The free arithmetic: an operation builds the term of its arguments, so that two
  results are equal only when they were computed in the same way from the same values.
  What a run of weights returns in it is what the run computes, in any arithmetic.
\<close>

datatype sym = Lit rat | Add sym sym | Mul sym sym | Div sym sym

definition sym_arith :: "sym arith" where
  "sym_arith = \<lparr>flit = Lit, fadd = Add, fmul = Mul, fdiv = Div\<rparr>"

text \<open>Arithmetic without rounding, on the reals.\<close>

definition exact_arith :: "real arith" where
  "exact_arith = \<lparr>flit = of_rat, fadd = (+), fmul = (*), fdiv = (/)\<rparr>"

text \<open>
  Doubles with the two infinities and the NaN.  The operations treat zero, the
  infinities and NaN as IEEE 754 does; on finite values they do not round, and zero
  has no sign.  The runs of weights evaluated in this arithmetic below leave the same
  weights in IEEE arithmetic: a finite value that IEEE arithmetic would round is, in
  these runs, the divisor of zero, or is divided by itself or by an infinity.
\<close>

datatype xdouble = Fin real | PInf | NInf | NaN

fun xd_add :: "xdouble \<Rightarrow> xdouble \<Rightarrow> xdouble" where
  "xd_add (Fin a) (Fin b) = Fin (a + b)"
| "xd_add NaN y = NaN"
| "xd_add x NaN = NaN"
| "xd_add PInf NInf = NaN"
| "xd_add NInf PInf = NaN"
| "xd_add PInf y = PInf"
| "xd_add x PInf = PInf"
| "xd_add NInf y = NInf"
| "xd_add x NInf = NInf"

fun xd_mul :: "xdouble \<Rightarrow> xdouble \<Rightarrow> xdouble" where
  "xd_mul (Fin a) (Fin b) = Fin (a * b)"
| "xd_mul NaN y = NaN"
| "xd_mul x NaN = NaN"
| "xd_mul (Fin a) PInf = (if a = 0 then NaN else if 0 < a then PInf else NInf)"
| "xd_mul (Fin a) NInf = (if a = 0 then NaN else if 0 < a then NInf else PInf)"
| "xd_mul PInf (Fin b) = (if b = 0 then NaN else if 0 < b then PInf else NInf)"
| "xd_mul NInf (Fin b) = (if b = 0 then NaN else if 0 < b then NInf else PInf)"
| "xd_mul PInf PInf = PInf"
| "xd_mul PInf NInf = NInf"
| "xd_mul NInf PInf = NInf"
| "xd_mul NInf NInf = PInf"

fun xd_div :: "xdouble \<Rightarrow> xdouble \<Rightarrow> xdouble" where
  "xd_div (Fin a) (Fin b) =
     (if b = 0 then (if a = 0 then NaN else if 0 < a then PInf else NInf) else Fin (a / b))"
| "xd_div NaN y = NaN"
| "xd_div x NaN = NaN"
| "xd_div (Fin a) PInf = Fin 0"
| "xd_div (Fin a) NInf = Fin 0"
| "xd_div PInf (Fin b) = (if 0 \<le> b then PInf else NInf)"
| "xd_div NInf (Fin b) = (if 0 \<le> b then NInf else PInf)"
| "xd_div PInf PInf = NaN"
| "xd_div PInf NInf = NaN"
| "xd_div NInf PInf = NaN"
| "xd_div NInf NInf = NaN"

definition xd_arith :: "xdouble arith" where
  "xd_arith = \<lparr>flit = (\<lambda>q. Fin (of_rat q)), fadd = xd_add, fmul = xd_mul, fdiv = xd_div\<rparr>"

section \<open>Arrays for the worked examples of weights\<close>

text \<open>
  Five cells, \<open>k = 3\<close>: the optimal weights \<open>1/10, 3/5, 3/10\<close> in every row, the
  smoothness indicators \<open>0, 1, 2\<close> in every row, and an output array of zeros.
\<close>

definition r5_w :: "sym ndarray" where
  "r5_w = c_array [5, 3]
     [Lit (1 / 10), Lit (3 / 5), Lit (3 / 10),
      Lit (1 / 10), Lit (3 / 5), Lit (3 / 10),
      Lit (1 / 10), Lit (3 / 5), Lit (3 / 10),
      Lit (1 / 10), Lit (3 / 5), Lit (3 / 10),
      Lit (1 / 10), Lit (3 / 5), Lit (3 / 10)]"

definition r5_sigma :: "sym ndarray" where
  "r5_sigma = c_array [5, 3]
     [Lit 0, Lit 1, Lit 2,
      Lit 0, Lit 1, Lit 2,
      Lit 0, Lit 1, Lit 2,
      Lit 0, Lit 1, Lit 2,
      Lit 0, Lit 1, Lit 2]"

definition r5_wr :: "sym ndarray" where
  "r5_wr = c_array [5, 3]
     [Lit 0, Lit 0, Lit 0,
      Lit 0, Lit 0, Lit 0,
      Lit 0, Lit 0, Lit 0,
      Lit 0, Lit 0, Lit 0,
      Lit 0, Lit 0, Lit 0]"

text \<open>
  Three cells, \<open>k = 2\<close>: optimal weights, smoothness indicators and an output array,
  over the reals and over the doubles with infinities and NaN; then optimal weights
  that are all zero, a smoothness indicator \<open>-1e-5\<close> at \<open>[1, 0]\<close>, and the smoothness
  indicators with 1 instead of 0 at \<open>[0, 0]\<close>.
\<close>

definition wt_w :: "real ndarray" where
  "wt_w = c_array [3, 2] [1, 0, 1 / 2, 1 / 2, 1 / 4, 3 / 4]"

definition wt_sigma :: "real ndarray" where
  "wt_sigma = c_array [3, 2] [0, 0, 0, 1, 0, 0]"

definition wt_sigma_up :: "real ndarray" where
  "wt_sigma_up = c_array [3, 2] [0, 0, 0, 2, 0, 0]"

definition wt_wr :: "real ndarray" where
  "wt_wr = c_array [3, 2] [0, 0, 0, 0, 0, 0]"

definition xd_w :: "xdouble ndarray" where
  "xd_w = c_array [3, 2] [Fin 1, Fin 0, Fin (1 / 2), Fin (1 / 2), Fin (1 / 4), Fin (3 / 4)]"

definition xd_w_zero :: "xdouble ndarray" where
  "xd_w_zero = c_array [3, 2] [Fin 0, Fin 0, Fin 0, Fin 0, Fin 0, Fin 0]"

definition xd_sigma :: "xdouble ndarray" where
  "xd_sigma = c_array [3, 2] [Fin 0, Fin 0, Fin 0, Fin 1, Fin 0, Fin 0]"

definition xd_sigma_neg :: "xdouble ndarray" where
  "xd_sigma_neg = c_array [3, 2] [Fin 0, Fin 0, Fin (- (1 / 100000)), Fin 0, Fin 0, Fin 0]"

definition xd_sigma_up :: "xdouble ndarray" where
  "xd_sigma_up = c_array [3, 2] [Fin 1, Fin 0, Fin 0, Fin 1, Fin 0, Fin 0]"

definition xd_wr :: "xdouble ndarray" where
  "xd_wr = c_array [3, 2] [Fin 0, Fin 0, Fin 0, Fin 0, Fin 0, Fin 0]"

section \<open>Memory and casts\<close>

lemma c_int_id: "- (2 ^ 31) \<le> x \<Longrightarrow> x < 2 ^ 31 \<Longrightarrow> c_int x = x"
  unfolding c_int_def
  by (simp add: signed_take_bit_int_eq_self sint_sbintrunc')

lemma load_Some [simp]: "m p = Some x \<Longrightarrow> load m p = Inr x"
  by (simp add: load_def)

lemma load_None [simp]: "m p = None \<Longrightarrow> load m p = Inl OutOfBounds"
  by (simp add: load_def)

lemma load_Inr_iff: "(load m p = Inr x) = (m p = Some x)"
  by (simp add: load_def split: option.splits)

lemma load_Inl_iff: "(load m p = Inl e) = (m p = None \<and> e = OutOfBounds)"
  by (auto simp add: load_def split: option.splits)

lemma store_Some [simp]: "m p = Some y \<Longrightarrow> store m p x = Inr (m(p \<mapsto> x))"
  by (simp add: store_def)

lemma store_None [simp]: "m p = None \<Longrightarrow> store m p x = Inl OutOfBounds"
  by (simp add: store_def)

lemma store_Inr_iff: "(store m p x = Inr m') = (m p \<noteq> None \<and> m' = m(p \<mapsto> x))"
  by (auto simp add: store_def split: option.splits)

lemma store_Inl_iff: "(store m p x = Inl e) = (m p = None \<and> e = OutOfBounds)"
  by (auto simp add: store_def split: option.splits)

section \<open>What dot reads and returns\<close>

lemma dot_loop_ok:
  "(\<And>j. i \<le> j \<Longrightarrow> j < n \<Longrightarrow> um (ub + j) \<noteq> None \<and> vm (vb + j * s) \<noteq> None) \<Longrightarrow>
   u = ub + (i - 1) \<Longrightarrow> v = vb + (i - 1) * s \<Longrightarrow>
   dot_loop um vm u v n s i d =
     Inr (foldl (\<lambda>d j. d + the (um (ub + j)) * the (vm (vb + j * s))) d [i..n - 1])"
proof (induction um vm u v n s i d rule: dot_loop.induct)
  case (1 um vm u v n s i d)
  show ?case
  proof (cases "i < n")
    case False
    then show ?thesis by (simp add: dot_loop.simps)
  next
    case True
    from "1.prems"(1) [of i] True obtain a b
      where a: "um (ub + i) = Some a" and b: "vm (vb + i * s) = Some b" by auto
    have u1: "u + 1 = ub + i" using "1.prems"(2) by simp
    have v1: "v + s = vb + i * s" using "1.prems"(3) by (simp add: algebra_simps)
    have la: "load um (u + 1) = Inr a" using a u1 by simp
    have lb: "load vm (v + s) = Inr b" using b v1 by simp
    have IH: "dot_loop um vm (u + 1) (v + s) n s (i + 1) (d + a * b) =
       Inr (foldl (\<lambda>d j. d + the (um (ub + j)) * the (vm (vb + j * s))) (d + a * b)
              [i + 1..n - 1])"
      using "1.IH" [OF True la lb] "1.prems"(1) u1 v1 by simp
    have up: "[i..n - 1] = i # [i + 1..n - 1]" using True by (simp add: upto_rec1)
    show ?thesis
      using True la lb IH a b by (subst dot_loop.simps) (simp add: up)
  qed
qed

lemma dot_loop_oob:
  "i \<le> j \<Longrightarrow> j < n \<Longrightarrow> um (ub + j) = None \<or> vm (vb + j * s) = None \<Longrightarrow>
   u = ub + (i - 1) \<Longrightarrow> v = vb + (i - 1) * s \<Longrightarrow>
   dot_loop um vm u v n s i d = Inl OutOfBounds"
proof (induction um vm u v n s i d rule: dot_loop.induct)
  case (1 um vm u v n s i d)
  have True: "i < n" using "1.prems" by simp
  have u1: "u + 1 = ub + i" using "1.prems"(4) by simp
  have v1: "v + s = vb + i * s" using "1.prems"(5) by (simp add: algebra_simps)
  show ?case
  proof (cases "load um (u + 1)")
    case (Inl e)
    then show ?thesis using True by (subst dot_loop.simps) (simp add: load_Inl_iff)
  next
    case (Inr a)
    note la = Inr
    show ?thesis
    proof (cases "load vm (v + s)")
      case (Inl e)
      then show ?thesis using True la by (subst dot_loop.simps) (simp add: load_Inl_iff)
    next
      case (Inr b)
      have "j \<noteq> i" using la Inr "1.prems"(3) u1 v1 by (auto simp: load_Inr_iff)
      then have ij: "i + 1 \<le> j" using "1.prems"(1) by simp
      have "dot_loop um vm (u + 1) (v + s) n s (i + 1) (d + a * b) = Inl OutOfBounds"
        using "1.IH" [OF True la Inr ij "1.prems"(2) "1.prems"(3)] u1 v1 by simp
      then show ?thesis using True la Inr by (subst dot_loop.simps) simp
    qed
  qed
qed

lemma dot_eq:
  "dot um vm u v n s =
     (if (\<forall>j. 0 \<le> j \<and> j < max 1 n \<longrightarrow> um (u + j) \<noteq> None \<and> vm (v + j * s) \<noteq> None)
      then Inr (dot_sum um vm u v n s) else Inl OutOfBounds)"
proof (cases "um u = None \<or> vm v = None")
  case True
  then have "dot um vm u v n s = Inl OutOfBounds"
    by (auto simp: dot_def load_def split: option.splits)
  moreover have "\<not> (\<forall>j. 0 \<le> j \<and> j < max 1 n \<longrightarrow> um (u + j) \<noteq> None \<and> vm (v + j * s) \<noteq> None)"
    using True by (auto intro!: exI [of _ 0])
  ultimately show ?thesis by simp
next
  case False
  then obtain a b where a: "um u = Some a" and b: "vm v = Some b" by auto
  have d: "dot um vm u v n s = dot_loop um vm u v n s 1 (a * b)"
    using a b by (simp add: dot_def)
  show ?thesis
  proof (cases "\<forall>j. 1 \<le> j \<and> j < n \<longrightarrow> um (u + j) \<noteq> None \<and> vm (v + j * s) \<noteq> None")
    case True
    then have "dot_loop um vm u v n s 1 (a * b) =
       Inr (foldl (\<lambda>d j. d + the (um (u + j)) * the (vm (v + j * s))) (a * b) [1..n - 1])"
      by (intro dot_loop_ok [where ub = u and vb = v]) auto
    moreover have "\<forall>j. 0 \<le> j \<and> j < max 1 n \<longrightarrow> um (u + j) \<noteq> None \<and> vm (v + j * s) \<noteq> None"
    proof (intro allI impI)
      fix j :: int assume "0 \<le> j \<and> j < max 1 n"
      then have "j = 0 \<or> (1 \<le> j \<and> j < n)" by auto
      then show "um (u + j) \<noteq> None \<and> vm (v + j * s) \<noteq> None"
        using True a b by auto
    qed
    ultimately show ?thesis using d a b by (simp add: dot_sum_def)
  next
    case False
    then obtain j where j: "1 \<le> j" "j < n" "um (u + j) = None \<or> vm (v + j * s) = None"
      by auto
    have "dot_loop um vm u v n s 1 (a * b) = Inl OutOfBounds"
      using j by (intro dot_loop_oob [where j = j and ub = u and vb = v]) auto
    moreover have "\<not> (\<forall>j. 0 \<le> j \<and> j < max 1 n \<longrightarrow> um (u + j) \<noteq> None \<and> vm (v + j * s) \<noteq> None)"
      using j by (auto intro!: exI [of _ j])
    ultimately show ?thesis using d by simp
  qed
qed

lemma dot_sum_cong:
  assumes "\<And>j. 0 \<le> j \<Longrightarrow> j < max 1 n \<Longrightarrow> um (u + j) = um' (u + j) \<and> vm (v + j * s) = vm' (v + j * s)"
  shows "dot_sum um vm u v n s = dot_sum um' vm' u v n s"
proof -
  have 0: "um u = um' u" "vm v = vm' v" using assms [of 0] by auto
  have "foldl (\<lambda>d j. d + the (um (u + j)) * the (vm (v + j * s))) x [1..n - 1] =
        foldl (\<lambda>d j. d + the (um' (u + j)) * the (vm' (v + j * s))) x [1..n - 1]" for x
    by (rule foldl_cong) (use assms in auto)
  then show ?thesis by (simp add: dot_sum_def 0)
qed

lemma dot_cong:
  assumes "\<And>j. 0 \<le> j \<Longrightarrow> j < max 1 n \<Longrightarrow> um (u + j) = um' (u + j) \<and> vm (v + j * s) = vm' (v + j * s)"
  shows "dot um vm u v n s = dot um' vm' u v n s"
proof -
  have "(\<forall>j. 0 \<le> j \<and> j < max 1 n \<longrightarrow> um (u + j) \<noteq> None \<and> vm (v + j * s) \<noteq> None) =
        (\<forall>j. 0 \<le> j \<and> j < max 1 n \<longrightarrow> um' (u + j) \<noteq> None \<and> vm' (v + j * s) \<noteq> None)"
    using assms by auto
  then show ?thesis
    using dot_sum_cong [of n um u um' vm v s vm'] assms by (simp add: dot_eq)
qed

text \<open>
  Claim C10.  dot reads \<open>u[0]\<close> and \<open>v[0]\<close> before it looks at \<open>n\<close>: whatever
  \<open>n\<close> is, the call is out of bounds when one of the two is not allocated, so a
  vector of length zero is not a valid argument.  For \<open>n \<ge> 1\<close> the call stays in
  bounds exactly when \<open>u[0..n-1]\<close> and \<open>v[0], v[s], ..., v[(n-1)*s]\<close> are all
  allocated, and its result is the same in any two memories that agree on these
  elements: they are the elements read, and no other.  For \<open>n = 1\<close> the result is
  \<open>u[0] * v[0]\<close>, whatever the stride \<open>s\<close>.
\<close>

theorem dot_reads:
  "(um u = None \<or> vm v = None \<longrightarrow> dot um vm u v n s = Inl OutOfBounds) \<and>
   (1 \<le> n \<longrightarrow>
      (dot um vm u v n s \<noteq> Inl OutOfBounds) =
        (\<forall>j. 0 \<le> j \<and> j < n \<longrightarrow> um (u + j) \<noteq> None \<and> vm (v + j * s) \<noteq> None)) \<and>
   (1 \<le> n \<longrightarrow>
      (\<forall>j. 0 \<le> j \<and> j < n \<longrightarrow> um (u + j) = um' (u + j) \<and> vm (v + j * s) = vm' (v + j * s)) \<longrightarrow>
      dot um vm u v n s = dot um' vm' u v n s) \<and>
   (um u = Some a \<and> vm v = Some b \<longrightarrow> dot um vm u v 1 s = Inr (a * b))"
proof (intro conjI impI)
  assume "um u = None \<or> vm v = None"
  then show "dot um vm u v n s = Inl OutOfBounds"
    by (auto simp: dot_def load_def split: option.splits)
next
  assume "1 \<le> n"
  then have "max 1 n = n" by simp
  then show "(dot um vm u v n s \<noteq> Inl OutOfBounds) =
        (\<forall>j. 0 \<le> j \<and> j < n \<longrightarrow> um (u + j) \<noteq> None \<and> vm (v + j * s) \<noteq> None)"
    by (simp add: dot_eq)
next
  assume n: "1 \<le> n"
    and "\<forall>j. 0 \<le> j \<and> j < n \<longrightarrow> um (u + j) = um' (u + j) \<and> vm (v + j * s) = vm' (v + j * s)"
  then show "dot um vm u v n s = dot um' vm' u v n s"
    by (intro dot_cong) auto
next
  assume "um u = Some a \<and> vm v = Some b"
  then show "dot um vm u v 1 s = Inr (a * b)"
    by (simp add: dot_def dot_loop.simps)
qed

theorem dot_reads_witness:
  "dot (Map.empty :: int buffer) [0 \<mapsto> 5] 0 0 0 1 = Inl OutOfBounds \<and>
   dot [0 \<mapsto> 2, 1 \<mapsto> 3] [0 \<mapsto> 5, 2 \<mapsto> 7 :: int] 0 0 2 2 \<noteq> Inl OutOfBounds \<and>
   dot [0 \<mapsto> 2, 1 \<mapsto> 3] [0 \<mapsto> 5, 2 \<mapsto> 7 :: int] 0 0 2 2 =
     dot [0 \<mapsto> 2, 1 \<mapsto> 3, 2 \<mapsto> 11] [0 \<mapsto> 5, 1 \<mapsto> 13, 2 \<mapsto> 7] 0 0 2 2 \<and>
   dot [0 \<mapsto> 2 :: int] [0 \<mapsto> 5] 0 0 1 7 = Inr 10"
proof -
  have j: "0 \<le> j \<and> j < 2 \<longleftrightarrow> j = 0 \<or> j = 1" for j :: int by auto
  have 1: "dot (Map.empty :: int buffer) [0 \<mapsto> 5] 0 0 0 1 = Inl OutOfBounds"
    using dot_reads [of Map.empty 0 "[0 \<mapsto> 5 :: int]" 0 0 1] by simp
  have 2: "dot [0 \<mapsto> 2, 1 \<mapsto> 3] [0 \<mapsto> 5, 2 \<mapsto> 7 :: int] 0 0 2 2 \<noteq> Inl OutOfBounds"
    using dot_reads [of "[0 \<mapsto> 2, 1 \<mapsto> 3 :: int]" 0 "[0 \<mapsto> 5, 2 \<mapsto> 7]" 0 2 2]
    by (simp add: j)
  have 3: "dot [0 \<mapsto> 2, 1 \<mapsto> 3] [0 \<mapsto> 5, 2 \<mapsto> 7 :: int] 0 0 2 2 =
     dot [0 \<mapsto> 2, 1 \<mapsto> 3, 2 \<mapsto> 11] [0 \<mapsto> 5, 1 \<mapsto> 13, 2 \<mapsto> 7] 0 0 2 2"
    using dot_reads [of "[0 \<mapsto> 2, 1 \<mapsto> 3 :: int]" 0 "[0 \<mapsto> 5, 2 \<mapsto> 7]" 0 2 2
        "[0 \<mapsto> 2, 1 \<mapsto> 3, 2 \<mapsto> 11]" "[0 \<mapsto> 5, 1 \<mapsto> 13, 2 \<mapsto> 7]"]
    by (simp add: j)
  have 4: "dot [0 \<mapsto> 2 :: int] [0 \<mapsto> 5] 0 0 1 7 = Inr 10"
    using dot_reads [of "[0 \<mapsto> 2 :: int]" 0 "[0 \<mapsto> 5]" 0 1 7 undefined undefined 2 5]
    by simp
  show ?thesis using 1 2 3 4 by simp
qed

section \<open>The range of shifts of weights\<close>

lemmas weights_run_simps = weights_def PyArray_DIM_def PyArray_GETPTR2_def c_int_def
  weights_rmin_def weights_rmax_def weights_cells.simps weights_alpha_loop.simps
  weights_norm_loop.simps alpha_def load_def store_def buffer_of_def

lemmas arith_defs = sym_arith_def exact_arith_def xd_arith_def

lemmas r5_defs = r5_w_def r5_sigma_def r5_wr_def c_array_def
  NPY_IN_ARRAY_def NPY_CONTIGUOUS_def NPY_ALIGNED_def

lemma weights_rmin_eq:
  "1 \<le> k \<Longrightarrow> k \<le> N \<Longrightarrow> k < 2 ^ 31 \<Longrightarrow> 0 \<le> i \<Longrightarrow> i < N \<Longrightarrow>
   weights_rmin N k i = max 0 (i - (N - k) - 1)"
  unfolding weights_rmin_def by (rule c_int_id) auto

lemma weights_rmax_eq:
  "1 \<le> k \<Longrightarrow> k < 2 ^ 31 \<Longrightarrow> 0 \<le> i \<Longrightarrow> weights_rmax k i = min (k - 1) i"
  unfolding weights_rmax_def by (rule c_int_id) auto

text \<open>
  Claim C2.  With \<open>N = 5\<close> and \<open>k = 3\<close> the range of shifts that weights computes
  is \<open>rmin = 0\<close>, \<open>rmax = 0\<close> at cell 0, as specified, and \<open>rmin = 1\<close>,
  \<open>rmax = 2\<close> at cell 4, where the specification expects \<open>rmin = 2\<close>:
  \<open>i-(N-k)-1\<close> is \<open>4-2-1 = 1\<close>.  Run on cell 4 alone,
  weights leaves \<open>wr[4,0]\<close> as it was and writes \<open>wr[4,1]\<close> and \<open>wr[4,2]\<close>, each the
  quotient of its alpha by the sum of the two.
\<close>

theorem weights_range_N5_k3:
  "weights_rmin 5 3 0 = 0 \<and> weights_rmax 3 0 = 0 \<and>
   weights_rmin 5 3 4 = 1 \<and> weights_rmax 3 4 = 2 \<and>
   weights sym_arith 4 4 r5_sigma r5_w r5_wr =
     Inr (Py_None, r5_wr\<lparr>data := (data r5_wr)
       (13 \<mapsto> Div (Div (Lit (3 / 5))
                      (Mul (Add (Lit (1 / 100000)) (Lit 1)) (Add (Lit (1 / 100000)) (Lit 1))))
                 (Add (Add (Lit 0)
                        (Div (Lit (3 / 5))
                          (Mul (Add (Lit (1 / 100000)) (Lit 1)) (Add (Lit (1 / 100000)) (Lit 1)))))
                      (Div (Lit (3 / 10))
                        (Mul (Add (Lit (1 / 100000)) (Lit 2)) (Add (Lit (1 / 100000)) (Lit 2))))),
        14 \<mapsto> Div (Div (Lit (3 / 10))
                      (Mul (Add (Lit (1 / 100000)) (Lit 2)) (Add (Lit (1 / 100000)) (Lit 2))))
                 (Add (Add (Lit 0)
                        (Div (Lit (3 / 5))
                          (Mul (Add (Lit (1 / 100000)) (Lit 1)) (Add (Lit (1 / 100000)) (Lit 1)))))
                      (Div (Lit (3 / 10))
                        (Mul (Add (Lit (1 / 100000)) (Lit 2)) (Add (Lit (1 / 100000)) (Lit 2))))))\<rparr>)"
  by (simp add: r5_defs arith_defs weights_run_simps)

text \<open>
  For \<open>N \<ge> k \<ge> 1\<close>, a cell \<open>i\<close> in \<open>[0, N)\<close> and a shift \<open>r\<close> in the range of weights,
  the window \<open>i-r, ..., i-r+k-1\<close> has no negative index and none above \<open>N\<close>; it
  stays below \<open>N\<close> exactly when \<open>r \<ge> i-(N-k)\<close>.
\<close>

lemma weights_range_window:
  "1 \<le> k \<Longrightarrow> k \<le> N \<Longrightarrow> k < 2 ^ 31 \<Longrightarrow> 0 \<le> i \<Longrightarrow> i < N \<Longrightarrow>
   weights_rmin N k i \<le> r \<Longrightarrow> r \<le> weights_rmax k i \<Longrightarrow>
   0 \<le> i - r \<and> i - r + k - 1 \<le> N \<and> (i - r + k - 1 < N) = (i - (N - k) \<le> r)"
  by (auto simp add: weights_rmin_eq weights_rmax_eq)

text \<open>
  Claim C3.  The range of weights does not keep every window inside \<open>[0, N)\<close>.
  For \<open>N = 5\<close> and \<open>k = 3\<close> the shift 1 is in the range of cell 4, and its window
  \<open>i-r, ..., i-r+k-1\<close> is \<open>3, 4, 5\<close>: the last index is \<open>N\<close>.  The least shift
  that keeps the window of cell 4 inside \<open>[0, N)\<close> is \<open>i-(N-k) = 2\<close>.  Run on cell
  4, weights gives the shift 1 a weight: \<open>wr[4,1]\<close>, zero before the call, is not
  zero after it.
\<close>

theorem weights_range_window_N5_k3:
  "(1::int) \<le> 3 \<and> (3::int) \<le> 5 \<and> (0::int) \<le> 4 \<and> (4::int) < 5 \<and>
   weights_rmin 5 3 4 \<le> 1 \<and> 1 \<le> weights_rmax 3 4 \<and>
   (4::int) - 1 + 3 - 1 = 5 \<and> \<not> ((4::int) - 1 + 3 - 1 < 5) \<and>
   data r5_wr (4 * 3 + 1) = Some (Lit 0) \<and>
   (\<exists>wr_py'. weights sym_arith 4 4 r5_sigma r5_w r5_wr = Inr (Py_None, wr_py') \<and>
      data wr_py' (4 * 3 + 1) \<noteq> Some (Lit 0))"
  by (simp add: r5_defs arith_defs weights_run_simps)

section \<open>Evaluating the worked examples\<close>

lemmas ex_defs = ex_q_def ex_c_def ex_wr_def ex_qr_def ex_qs_def c_array_def
  bd_q_def bd_c_def bd_wr_def bd_qr_def
  NPY_IN_ARRAY_def NPY_CONTIGUOUS_def NPY_ALIGNED_def

lemmas run_simps = reconstruct_def PyArray_DIM_def PyArray_GETPTR1_def PyArray_GETPTR2_def
  PyArray_GETPTR3_def PyArray_GETPTR4_def c_int_def
  reconstruct_qr_cells.simps reconstruct_qr_r_loop.simps reconstruct_qr_l_loop.simps
  reconstruct_qs_cells.simps reconstruct_qs_l_loop.simps dot_def dot_loop.simps
  load_def store_def buffer_of_def

section \<open>reconstruct: the k-order reconstructions\<close>

lemma dot_Inr:
  assumes "dot um vm u v n s = Inr d"
  shows "d = dot_sum um vm u v n s"
    and "\<And>j. 0 \<le> j \<Longrightarrow> j < max 1 n \<Longrightarrow> um (u + j) \<noteq> None \<and> vm (v + j * s) \<noteq> None"
proof -
  have *: "(\<forall>j. 0 \<le> j \<and> j < max 1 n \<longrightarrow> um (u + j) \<noteq> None \<and> vm (v + j * s) \<noteq> None) \<and>
      d = dot_sum um vm u v n s"
    using assms unfolding dot_eq by (simp split: if_splits)
  show "d = dot_sum um vm u v n s" using * by simp
  show "\<And>j. 0 \<le> j \<Longrightarrow> j < max 1 n \<Longrightarrow> um (u + j) \<noteq> None \<and> vm (v + j * s) \<noteq> None"
    using * by blast
qed

lemma reconstruct_qr_l_loop_Inr:
  "reconstruct_qr_l_loop cm qm k qst n l q c qr qrm = Inr qrm' \<Longrightarrow>
   (\<forall>p. qrm' p =
      (if qr \<le> p \<and> p < qr + (n - l) then Some (dot_sum cm qm (c + (p - qr) * k) q k qst)
       else qrm p)) \<and>
   (\<forall>p. qr \<le> p \<and> p < qr + (n - l) \<longrightarrow>
      dot cm qm (c + (p - qr) * k) q k qst = Inr (dot_sum cm qm (c + (p - qr) * k) q k qst))"
proof (induction cm qm k qst n l q c qr qrm arbitrary: qrm'
    rule: reconstruct_qr_l_loop.induct)
  case (1 cm qm k qst n l q c qr qrm)
  show ?case
  proof (cases "l < n")
    case False
    then show ?thesis using "1.prems" by (auto simp add: reconstruct_qr_l_loop.simps)
  next
    case True
    from "1.prems" True obtain d qrm1 where
      d: "dot cm qm c q k qst = Inr d" and
      st: "store qrm qr d = Inr qrm1" and
      rec: "reconstruct_qr_l_loop cm qm k qst n (l + 1) q (c + k) (qr + 1) qrm1 = Inr qrm'"
      by (subst (asm) reconstruct_qr_l_loop.simps) (auto split: sum.splits)
    have dv: "d = dot_sum cm qm c q k qst" using dot_Inr(1) [OF d] .
    have q1: "qrm1 = qrm(qr \<mapsto> d)" using st by (simp add: store_Inr_iff)
    note IH = "1.IH" [OF True d st rec]
    have a: "c + k + (p - (qr + 1)) * k = c + (p - qr) * k" for p
      by (simp add: algebra_simps)
    show ?thesis
    proof (intro conjI allI impI)
      fix p
      show "qrm' p =
        (if qr \<le> p \<and> p < qr + (n - l) then Some (dot_sum cm qm (c + (p - qr) * k) q k qst)
         else qrm p)"
      proof (cases "p = qr")
        case True
        then show ?thesis using IH \<open>l < n\<close> q1 dv by simp
      next
        case False
        then show ?thesis using IH q1 by (auto simp: a)
      qed
    next
      fix p assume p: "qr \<le> p \<and> p < qr + (n - l)"
      show "dot cm qm (c + (p - qr) * k) q k qst = Inr (dot_sum cm qm (c + (p - qr) * k) q k qst)"
      proof (cases "p = qr")
        case True
        then show ?thesis using d dv by simp
      next
        case False
        then have "qr + 1 \<le> p \<and> p < qr + 1 + (n - (l + 1))" using p by auto
        then show ?thesis using IH by (simp add: a)
      qed
    qed
  qed
qed


lemma reconstruct_qr_r_loop_Inr:
  "reconstruct_qr_r_loop q_py c_py k qst n i r rmax qr_py = Inr qr_py' \<Longrightarrow>
   strides c_py = [k * n * k, n * k, k, 1] \<Longrightarrow> strides qr_py = [k * n, n, 1] \<Longrightarrow>
   strides q_py = st # sts \<Longrightarrow> 0 \<le> n \<Longrightarrow>
   qr_py' = qr_py\<lparr>data := data qr_py'\<rparr> \<and>
   (\<forall>r' l. r \<le> r' \<and> r' \<le> rmax \<and> 0 \<le> l \<and> l < n \<longrightarrow>
      data qr_py' ((i * k + r') * n + l) =
        Some (dot_sum (data c_py) (data q_py) (((i * k + r') * n + l) * k) ((i - r') * st) k qst) \<and>
      dot (data c_py) (data q_py) (((i * k + r') * n + l) * k) ((i - r') * st) k qst =
        Inr (dot_sum (data c_py) (data q_py) (((i * k + r') * n + l) * k) ((i - r') * st) k qst)) \<and>
   (\<forall>p. \<not> ((i * k + r) * n \<le> p \<and> p < (i * k + rmax + 1) * n) \<longrightarrow>
      data qr_py' p = data qr_py p)"
proof (induction q_py c_py k qst n i r rmax qr_py arbitrary: qr_py'
    rule: reconstruct_qr_r_loop.induct)
  case (1 q_py c_py k qst n i r rmax qr_py)
  note sc = "1.prems"(2) and sqr = "1.prems"(3) and sq = "1.prems"(4) and n0 = "1.prems"(5)
  show ?case
  proof (cases "r < rmax + 1")
    case False
    then show ?thesis using "1.prems"(1)
      by (subst (asm) reconstruct_qr_r_loop.simps) auto
  next
    case True
    define q where "q = (i - r) * st"
    define c where "c = (i * k + r) * n * k"
    define qr where "qr = (i * k + r) * n"
    have gq: "PyArray_GETPTR1 q_py (i - r) = Inr q"
      using sq by (simp add: PyArray_GETPTR1_def q_def)
    have gc: "PyArray_GETPTR4 c_py i r 0 0 = Inr c"
      using sc by (simp add: PyArray_GETPTR4_def c_def algebra_simps)
    have gqr: "PyArray_GETPTR3 qr_py i r 0 = Inr qr"
      using sqr by (simp add: PyArray_GETPTR3_def qr_def algebra_simps)
    from "1.prems"(1) True gq gc gqr obtain qrm where
      lp: "reconstruct_qr_l_loop (data c_py) (data q_py) k qst n 0 q c qr (data qr_py) = Inr qrm"
      and rec: "reconstruct_qr_r_loop q_py c_py k qst n i (r + 1) rmax (qr_py\<lparr>data := qrm\<rparr>) =
        Inr qr_py'"
      by (subst (asm) reconstruct_qr_r_loop.simps) (auto split: sum.splits)
    note L = reconstruct_qr_l_loop_Inr [OF lp]
    have IH: "qr_py' = qr_py\<lparr>data := qrm\<rparr>\<lparr>data := data qr_py'\<rparr> \<and>
      (\<forall>r' l. r + 1 \<le> r' \<and> r' \<le> rmax \<and> 0 \<le> l \<and> l < n \<longrightarrow>
        data qr_py' ((i * k + r') * n + l) =
          Some (dot_sum (data c_py) (data q_py) (((i * k + r') * n + l) * k) ((i - r') * st) k qst) \<and>
        dot (data c_py) (data q_py) (((i * k + r') * n + l) * k) ((i - r') * st) k qst =
          Inr (dot_sum (data c_py) (data q_py) (((i * k + r') * n + l) * k) ((i - r') * st) k qst)) \<and>
      (\<forall>p. \<not> ((i * k + (r + 1)) * n \<le> p \<and> p < (i * k + rmax + 1) * n) \<longrightarrow>
        data qr_py' p = qrm p)"
      using "1.IH" [OF True gq gc gqr lp rec sc _ sq n0] sqr by simp
    have e1: "(i * k + (r + 1)) * n = qr + n" by (simp add: qr_def algebra_simps)
    have "(r + 1) * n \<le> (rmax + 1) * n" using True n0 by (intro mult_right_mono) auto
    then have e2: "qr + n \<le> (i * k + rmax + 1) * n" by (simp add: qr_def algebra_simps)
    have cl: "c + l * k = ((i * k + r) * n + l) * k" for l by (simp add: c_def algebra_simps)
    have A: "qr_py' = qr_py\<lparr>data := data qr_py'\<rparr>"
      using IH by (metis ndarray.surjective ndarray.update_convs(4))
    have B: "data qr_py' ((i * k + r') * n + l) =
          Some (dot_sum (data c_py) (data q_py) (((i * k + r') * n + l) * k) ((i - r') * st) k qst) \<and>
        dot (data c_py) (data q_py) (((i * k + r') * n + l) * k) ((i - r') * st) k qst =
          Inr (dot_sum (data c_py) (data q_py) (((i * k + r') * n + l) * k) ((i - r') * st) k qst)"
      if h: "r \<le> r' \<and> r' \<le> rmax \<and> 0 \<le> l \<and> l < n" for r' l
    proof (cases "r' = r")
      case False
      then show ?thesis using IH h by simp
    next
      case True
      have p: "qr \<le> qr + l \<and> qr + l < qr + (n - 0)" using h by simp
      have "\<not> ((i * k + (r + 1)) * n \<le> qr + l \<and> qr + l < (i * k + rmax + 1) * n)"
        using h e1 by simp
      then have "data qr_py' (qr + l) = qrm (qr + l)" using IH by blast
      also have "\<dots> = Some (dot_sum (data c_py) (data q_py) (c + l * k) q k qst)"
        using L p by simp
      finally have 1: "data qr_py' (qr + l) =
        Some (dot_sum (data c_py) (data q_py) (c + l * k) q k qst)" .
      have 2: "dot (data c_py) (data q_py) (c + l * k) q k qst =
        Inr (dot_sum (data c_py) (data q_py) (c + l * k) q k qst)"
        using conjunct2 [OF L, rule_format, OF p] by simp
      show ?thesis using 1 2 True by (simp add: cl qr_def q_def)
    qed
    have C: "data qr_py' p = data qr_py p"
      if h: "\<not> ((i * k + r) * n \<le> p \<and> p < (i * k + rmax + 1) * n)" for p
    proof -
      from h have h': "\<not> (qr \<le> p \<and> p < (i * k + rmax + 1) * n)" by (simp add: qr_def)
      then have "\<not> ((i * k + (r + 1)) * n \<le> p \<and> p < (i * k + rmax + 1) * n)"
        using e1 n0 by auto
      then have "data qr_py' p = qrm p" using IH by blast
      also have "\<dots> = data qr_py p" using L h' e2 by auto
      finally show "data qr_py' p = data qr_py p" .
    qed
    show ?thesis using A B C by blast
  qed
qed


lemma reconstruct_qr_cells_Inr:
  "reconstruct_qr_cells q_py c_py k qst n s i imax qr_py = Inr qr_py' \<Longrightarrow>
   strides c_py = [k * n * k, n * k, k, 1] \<Longrightarrow> strides qr_py = [k * n, n, 1] \<Longrightarrow>
   strides q_py = st # sts \<Longrightarrow> 0 \<le> n \<Longrightarrow> 0 \<le> k \<Longrightarrow>
   qr_py' = qr_py\<lparr>data := data qr_py'\<rparr> \<and>
   (\<forall>i' r' l. i \<le> i' \<and> i' \<le> imax \<and> max 0 s \<le> r' \<and> r' \<le> min (k - 1 + s) (k - 1) \<and>
        0 \<le> l \<and> l < n \<longrightarrow>
      data qr_py' ((i' * k + r') * n + l) =
        Some (dot_sum (data c_py) (data q_py) (((i' * k + r') * n + l) * k) ((i' - r') * st) k qst) \<and>
      dot (data c_py) (data q_py) (((i' * k + r') * n + l) * k) ((i' - r') * st) k qst =
        Inr (dot_sum (data c_py) (data q_py) (((i' * k + r') * n + l) * k) ((i' - r') * st) k qst)) \<and>
   (\<forall>p. \<not> (i * k * n \<le> p \<and> p < (imax + 1) * k * n) \<longrightarrow> data qr_py' p = data qr_py p)"
proof (induction q_py c_py k qst n s i imax qr_py arbitrary: qr_py'
    rule: reconstruct_qr_cells.induct)
  case (1 q_py c_py k qst n s i imax qr_py)
  note sc = "1.prems"(2) and sqr = "1.prems"(3) and sq = "1.prems"(4) and n0 = "1.prems"(5)
    and k0 = "1.prems"(6)
  show ?case
  proof (cases "i \<le> imax")
    case False
    then show ?thesis using "1.prems"(1)
      by (subst (asm) reconstruct_qr_cells.simps) auto
  next
    case True
    define rmin where "rmin = max 0 s"
    define rmax where "rmax = min (k - 1 + s) (k - 1)"
    from "1.prems"(1) True obtain qr1 where
      rl: "reconstruct_qr_r_loop q_py c_py k qst n i rmin rmax qr_py = Inr qr1"
      and rec: "reconstruct_qr_cells q_py c_py k qst n s (i + 1) imax qr1 = Inr qr_py'"
      by (subst (asm) reconstruct_qr_cells.simps)
        (auto simp: Let_def rmin_def rmax_def split: sum.splits)
    note R = reconstruct_qr_r_loop_Inr [OF rl sc sqr sq n0]
    have sqr1: "strides qr1 = [k * n, n, 1]"
      using R sqr by (metis ndarray.select_convs(3) ndarray.surjective ndarray.update_convs(4))
    note IH = "1.IH" [OF True rmin_def rmax_def rl rec sc sqr1 sq n0 k0]
    have kn: "0 \<le> k * n" using n0 k0 by simp
    have e1: "(i + 1) * k * n = i * k * n + k * n" by (simp add: algebra_simps)
    have "(i + 1) * (k * n) \<le> (imax + 1) * (k * n)"
      using True kn by (intro mult_right_mono) auto
    then have e2: "i * k * n + k * n \<le> (imax + 1) * k * n" by (simp add: algebra_simps)
    have lo: "i * k * n \<le> (i * k + rmin) * n"
      using n0 by (simp add: rmin_def algebra_simps)
    have "(rmax + 1) * n \<le> k * n" using n0 by (intro mult_right_mono) (auto simp: rmax_def)
    then have hi: "(i * k + rmax + 1) * n \<le> i * k * n + k * n" by (simp add: algebra_simps)
    have A: "qr_py' = qr_py\<lparr>data := data qr_py'\<rparr>"
      using IH R by (metis ndarray.surjective ndarray.update_convs(4))
    have B: "data qr_py' ((i' * k + r') * n + l) =
        Some (dot_sum (data c_py) (data q_py) (((i' * k + r') * n + l) * k) ((i' - r') * st) k qst) \<and>
      dot (data c_py) (data q_py) (((i' * k + r') * n + l) * k) ((i' - r') * st) k qst =
        Inr (dot_sum (data c_py) (data q_py) (((i' * k + r') * n + l) * k) ((i' - r') * st) k qst)"
      if h: "i \<le> i' \<and> i' \<le> imax \<and> max 0 s \<le> r' \<and> r' \<le> min (k - 1 + s) (k - 1) \<and>
        0 \<le> l \<and> l < n" for i' r' l
    proof (cases "i' = i")
      case False
      then show ?thesis using IH h by simp
    next
      case True
      have "(r' + 1) * n \<le> k * n" using n0 h by (intro mult_right_mono) auto
      then have "(i * k + r') * n + l < i * k * n + k * n"
        using h by (simp add: algebra_simps)
      then have "\<not> ((i + 1) * k * n \<le> (i * k + r') * n + l \<and>
          (i * k + r') * n + l < (imax + 1) * k * n)"
        using e1 by simp
      then have "data qr_py' ((i * k + r') * n + l) = data qr1 ((i * k + r') * n + l)"
        using IH by blast
      then show ?thesis using R h True by (simp add: rmin_def rmax_def)
    qed
    have C: "data qr_py' p = data qr_py p"
      if h: "\<not> (i * k * n \<le> p \<and> p < (imax + 1) * k * n)" for p
    proof -
      have "\<not> ((i + 1) * k * n \<le> p \<and> p < (imax + 1) * k * n)"
        using h e1 kn by auto
      then have "data qr_py' p = data qr1 p" using IH by blast
      moreover have "\<not> ((i * k + rmin) * n \<le> p \<and> p < (i * k + rmax + 1) * n)"
        using h lo hi e2 by auto
      then have "data qr1 p = data qr_py p" using R by blast
      ultimately show ?thesis by simp
    qed
    show ?thesis using A B C by blast
  qed
qed


lemma dot_not_oob:
  "dot um vm u v n s \<noteq> Inl OutOfBounds \<Longrightarrow> dot um vm u v n s = Inr (dot_sum um vm u v n s)"
  by (simp add: dot_eq split: if_splits)

lemma dot_alloc:
  "(\<And>j. 0 \<le> j \<Longrightarrow> j < max 1 n \<Longrightarrow> um (u + j) \<noteq> None \<and> vm (v + j * s) \<noteq> None) \<Longrightarrow>
   dot um vm u v n s = Inr (dot_sum um vm u v n s)"
  by (simp add: dot_eq)

lemma reconstruct_qr_l_loop_ok:
  "(\<And>p. qr \<le> p \<Longrightarrow> p < qr + (n - l) \<Longrightarrow>
      dot cm qm (c + (p - qr) * k) q k qst \<noteq> Inl OutOfBounds \<and> qrm p \<noteq> None) \<Longrightarrow>
   \<exists>qrm'. reconstruct_qr_l_loop cm qm k qst n l q c qr qrm = Inr qrm' \<and>
     (\<forall>p. (qrm' p = None) = (qrm p = None))"
proof (induction cm qm k qst n l q c qr qrm rule: reconstruct_qr_l_loop.induct)
  case (1 cm qm k qst n l q c qr qrm)
  show ?case
  proof (cases "l < n")
    case False
    then show ?thesis by (simp add: reconstruct_qr_l_loop.simps)
  next
    case True
    have "dot cm qm (c + (qr - qr) * k) q k qst \<noteq> Inl OutOfBounds \<and> qrm qr \<noteq> None"
      using True by (intro "1.prems") auto
    then obtain y where d: "dot cm qm c q k qst = Inr (dot_sum cm qm c q k qst)"
      and y: "qrm qr = Some y"
      using dot_not_oob [of cm qm c q k qst] by auto
    define qrm1 where "qrm1 = qrm(qr \<mapsto> dot_sum cm qm c q k qst)"
    have st: "store qrm qr (dot_sum cm qm c q k qst) = Inr qrm1"
      using y by (simp add: qrm1_def)
    have a: "c + k + (p - (qr + 1)) * k = c + (p - qr) * k" for p
      by (simp add: algebra_simps)
    have "\<exists>qrm'. reconstruct_qr_l_loop cm qm k qst n (l + 1) q (c + k) (qr + 1) qrm1 = Inr qrm' \<and>
     (\<forall>p. (qrm' p = None) = (qrm1 p = None))"
    proof (rule "1.IH" [OF True d st])
      fix p assume "qr + 1 \<le> p" "p < qr + 1 + (n - (l + 1))"
      then have "dot cm qm (c + (p - qr) * k) q k qst \<noteq> Inl OutOfBounds \<and> qrm p \<noteq> None"
        by (intro "1.prems") auto
      then show "dot cm qm (c + k + (p - (qr + 1)) * k) q k qst \<noteq> Inl OutOfBounds \<and>
        qrm1 p \<noteq> None"
        by (simp add: a qrm1_def)
    qed
    then obtain qrm' where
      r: "reconstruct_qr_l_loop cm qm k qst n (l + 1) q (c + k) (qr + 1) qrm1 = Inr qrm'"
      and dm: "\<forall>p. (qrm' p = None) = (qrm1 p = None)" by blast
    have "\<forall>p. (qrm' p = None) = (qrm p = None)" using dm y by (simp add: qrm1_def)
    then show ?thesis
      using True d st r
      by (simp add: reconstruct_qr_l_loop.simps [of cm qm k qst n l q c qr qrm])
  qed
qed

lemma reconstruct_qr_r_loop_ok:
  "strides c_py = [k * n * k, n * k, k, 1] \<Longrightarrow> strides qr_py = [k * n, n, 1] \<Longrightarrow>
   strides q_py = st # sts \<Longrightarrow>
   (\<And>r' l. r \<le> r' \<Longrightarrow> r' \<le> rmax \<Longrightarrow> 0 \<le> l \<Longrightarrow> l < n \<Longrightarrow>
      dot (data c_py) (data q_py) (((i * k + r') * n + l) * k) ((i - r') * st) k qst
        \<noteq> Inl OutOfBounds \<and>
      data qr_py ((i * k + r') * n + l) \<noteq> None) \<Longrightarrow>
   \<exists>qr_py'. reconstruct_qr_r_loop q_py c_py k qst n i r rmax qr_py = Inr qr_py' \<and>
     strides qr_py' = strides qr_py \<and> (\<forall>p. (data qr_py' p = None) = (data qr_py p = None))"
proof (induction q_py c_py k qst n i r rmax qr_py rule: reconstruct_qr_r_loop.induct)
  case (1 q_py c_py k qst n i r rmax qr_py)
  note sc = "1.prems"(1) and sqr = "1.prems"(2) and sq = "1.prems"(3) and al = "1.prems"(4)
  show ?case
  proof (cases "r < rmax + 1")
    case False
    then show ?thesis
      by (simp add: reconstruct_qr_r_loop.simps [of q_py c_py k qst n i r rmax qr_py])
  next
    case True
    define q where "q = (i - r) * st"
    define c where "c = (i * k + r) * n * k"
    define qr where "qr = (i * k + r) * n"
    have gq: "PyArray_GETPTR1 q_py (i - r) = Inr q"
      using sq by (simp add: PyArray_GETPTR1_def q_def)
    have gc: "PyArray_GETPTR4 c_py i r 0 0 = Inr c"
      using sc by (simp add: PyArray_GETPTR4_def c_def algebra_simps)
    have gqr: "PyArray_GETPTR3 qr_py i r 0 = Inr qr"
      using sqr by (simp add: PyArray_GETPTR3_def qr_def algebra_simps)
    have "\<exists>qrm'. reconstruct_qr_l_loop (data c_py) (data q_py) k qst n 0 q c qr (data qr_py) = Inr qrm' \<and>
      (\<forall>p. (qrm' p = None) = (data qr_py p = None))"
    proof (rule reconstruct_qr_l_loop_ok)
      fix p assume p: "qr \<le> p" "p < qr + (n - 0)"
      have e1: "(i * k + r) * n + (p - qr) = p" by (simp add: qr_def)
      have e2: "c + (p - qr) * k = p * k" by (simp add: c_def qr_def algebra_simps)
      have "dot (data c_py) (data q_py) (((i * k + r) * n + (p - qr)) * k) ((i - r) * st) k qst
          \<noteq> Inl OutOfBounds \<and>
        data qr_py ((i * k + r) * n + (p - qr)) \<noteq> None"
        using True p by (intro al) auto
      then show "dot (data c_py) (data q_py) (c + (p - qr) * k) q k qst \<noteq> Inl OutOfBounds \<and>
        data qr_py p \<noteq> None"
        unfolding e1 e2 q_def by simp
    qed
    then obtain qrm where
      lp: "reconstruct_qr_l_loop (data c_py) (data q_py) k qst n 0 q c qr (data qr_py) = Inr qrm"
      and dm: "\<forall>p. (qrm p = None) = (data qr_py p = None)" by blast
    have "\<exists>qr_py'. reconstruct_qr_r_loop q_py c_py k qst n i (r + 1) rmax (qr_py\<lparr>data := qrm\<rparr>) =
        Inr qr_py' \<and> strides qr_py' = strides (qr_py\<lparr>data := qrm\<rparr>) \<and>
        (\<forall>p. (data qr_py' p = None) = (data (qr_py\<lparr>data := qrm\<rparr>) p = None))"
    proof (rule "1.IH" [OF True gq gc gqr lp sc _ sq])
      show "strides (qr_py\<lparr>data := qrm\<rparr>) = [k * n, n, 1]" using sqr by simp
    next
      fix r' l assume "r + 1 \<le> r'" "r' \<le> rmax" "0 \<le> l" "l < n"
      then have "dot (data c_py) (data q_py) (((i * k + r') * n + l) * k) ((i - r') * st) k qst
          \<noteq> Inl OutOfBounds \<and> data qr_py ((i * k + r') * n + l) \<noteq> None"
        by (intro al) auto
      then show "dot (data c_py) (data q_py) (((i * k + r') * n + l) * k) ((i - r') * st) k qst
          \<noteq> Inl OutOfBounds \<and> data (qr_py\<lparr>data := qrm\<rparr>) ((i * k + r') * n + l) \<noteq> None"
        using dm by simp
    qed
    then obtain qr_py' where
      rec: "reconstruct_qr_r_loop q_py c_py k qst n i (r + 1) rmax (qr_py\<lparr>data := qrm\<rparr>) = Inr qr_py'"
      and s': "strides qr_py' = strides qr_py"
      and d': "\<forall>p. (data qr_py' p = None) = (qrm p = None)" by auto
    show ?thesis
      using True gq gc gqr lp rec s' d' dm
      by (simp add: reconstruct_qr_r_loop.simps [of q_py c_py k qst n i r rmax qr_py])
  qed
qed

lemma reconstruct_qr_cells_ok:
  "strides c_py = [k * n * k, n * k, k, 1] \<Longrightarrow> strides qr_py = [k * n, n, 1] \<Longrightarrow>
   strides q_py = st # sts \<Longrightarrow>
   (\<And>i' r' l. i \<le> i' \<Longrightarrow> i' \<le> imax \<Longrightarrow> max 0 s \<le> r' \<Longrightarrow> r' \<le> min (k - 1 + s) (k - 1) \<Longrightarrow>
      0 \<le> l \<Longrightarrow> l < n \<Longrightarrow>
      dot (data c_py) (data q_py) (((i' * k + r') * n + l) * k) ((i' - r') * st) k qst
        \<noteq> Inl OutOfBounds \<and>
      data qr_py ((i' * k + r') * n + l) \<noteq> None) \<Longrightarrow>
   \<exists>qr_py'. reconstruct_qr_cells q_py c_py k qst n s i imax qr_py = Inr qr_py' \<and>
     strides qr_py' = strides qr_py \<and> (\<forall>p. (data qr_py' p = None) = (data qr_py p = None))"
proof (induction q_py c_py k qst n s i imax qr_py rule: reconstruct_qr_cells.induct)
  case (1 q_py c_py k qst n s i imax qr_py)
  note sc = "1.prems"(1) and sqr = "1.prems"(2) and sq = "1.prems"(3) and al = "1.prems"(4)
  show ?case
  proof (cases "i \<le> imax")
    case False
    then show ?thesis
      by (simp add: reconstruct_qr_cells.simps [of q_py c_py k qst n s i imax qr_py])
  next
    case True
    define rmin where "rmin = max 0 s"
    define rmax where "rmax = min (k - 1 + s) (k - 1)"
    have "\<exists>qr1. reconstruct_qr_r_loop q_py c_py k qst n i rmin rmax qr_py = Inr qr1 \<and>
      strides qr1 = strides qr_py \<and> (\<forall>p. (data qr1 p = None) = (data qr_py p = None))"
    proof (rule reconstruct_qr_r_loop_ok [OF sc sqr sq])
      fix r' l assume "rmin \<le> r'" "r' \<le> rmax" "0 \<le> l" "l < n"
      then show "dot (data c_py) (data q_py) (((i * k + r') * n + l) * k) ((i - r') * st) k qst
          \<noteq> Inl OutOfBounds \<and> data qr_py ((i * k + r') * n + l) \<noteq> None"
        using True unfolding rmin_def rmax_def by (intro al) auto
    qed
    then obtain qr1 where
      rl: "reconstruct_qr_r_loop q_py c_py k qst n i rmin rmax qr_py = Inr qr1"
      and s1: "strides qr1 = strides qr_py"
      and d1: "\<forall>p. (data qr1 p = None) = (data qr_py p = None)" by blast
    have "\<exists>qr_py'. reconstruct_qr_cells q_py c_py k qst n s (i + 1) imax qr1 = Inr qr_py' \<and>
      strides qr_py' = strides qr1 \<and> (\<forall>p. (data qr_py' p = None) = (data qr1 p = None))"
    proof (rule "1.IH" [OF True rmin_def rmax_def rl sc _ sq])
      show "strides qr1 = [k * n, n, 1]" using s1 sqr by simp
    next
      fix i' r' l
      assume "i + 1 \<le> i'" "i' \<le> imax" "max 0 s \<le> r'" "r' \<le> min (k - 1 + s) (k - 1)"
        "0 \<le> l" "l < n"
      then have "dot (data c_py) (data q_py) (((i' * k + r') * n + l) * k) ((i' - r') * st) k qst
          \<noteq> Inl OutOfBounds \<and> data qr_py ((i' * k + r') * n + l) \<noteq> None"
        by (intro al) auto
      then show "dot (data c_py) (data q_py) (((i' * k + r') * n + l) * k) ((i' - r') * st) k qst
          \<noteq> Inl OutOfBounds \<and> data qr1 ((i' * k + r') * n + l) \<noteq> None"
        using d1 by simp
    qed
    then obtain qr_py' where
      rec: "reconstruct_qr_cells q_py c_py k qst n s (i + 1) imax qr1 = Inr qr_py'"
      and s': "strides qr_py' = strides qr1"
      and d': "\<forall>p. (data qr_py' p = None) = (data qr1 p = None)" by blast
    show ?thesis
      using True rl rec s' d' s1 d1
      by (simp add: reconstruct_qr_cells.simps [of q_py c_py k qst n s i imax qr_py]
          rmin_def [symmetric] rmax_def [symmetric])
  qed
qed


lemma reconstruct_qs_l_loop_ok:
  "(\<And>l'. l \<le> l' \<Longrightarrow> l' < n \<Longrightarrow>
      dot wrm qrm wr (qr + (l' - l)) k n \<noteq> Inl OutOfBounds \<and>
      qsm (qs + (l' - l) * qst) \<noteq> None) \<Longrightarrow>
   \<exists>qsm'. reconstruct_qs_l_loop wrm qrm k n qst l wr qs qr qsm = Inr qsm' \<and>
     (\<forall>p. (qsm' p = None) = (qsm p = None))"
proof (induction wrm qrm k n qst l wr qs qr qsm rule: reconstruct_qs_l_loop.induct)
  case (1 wrm qrm k n qst l wr qs qr qsm)
  show ?case
  proof (cases "l < n")
    case False
    then show ?thesis by (simp add: reconstruct_qs_l_loop.simps)
  next
    case True
    have "dot wrm qrm wr (qr + (l - l)) k n \<noteq> Inl OutOfBounds \<and>
      qsm (qs + (l - l) * qst) \<noteq> None"
      using True by (intro "1.prems") auto
    then obtain y where d: "dot wrm qrm wr qr k n = Inr (dot_sum wrm qrm wr qr k n)"
      and y: "qsm qs = Some y"
      using dot_not_oob [of wrm qrm wr qr k n] by auto
    define qsm1 where "qsm1 = qsm(qs \<mapsto> dot_sum wrm qrm wr qr k n)"
    have st: "store qsm qs (dot_sum wrm qrm wr qr k n) = Inr qsm1"
      using y by (simp add: qsm1_def)
    have "\<exists>qsm'. reconstruct_qs_l_loop wrm qrm k n qst (l + 1) wr (qs + qst) (qr + 1) qsm1 =
        Inr qsm' \<and> (\<forall>p. (qsm' p = None) = (qsm1 p = None))"
    proof (rule "1.IH" [OF True d st])
      fix l' assume l': "l + 1 \<le> l'" "l' < n"
      have e1: "qr + 1 + (l' - (l + 1)) = qr + (l' - l)" by simp
      have e2: "qs + qst + (l' - (l + 1)) * qst = qs + (l' - l) * qst"
        by (simp add: algebra_simps)
      have "dot wrm qrm wr (qr + (l' - l)) k n \<noteq> Inl OutOfBounds \<and>
        qsm (qs + (l' - l) * qst) \<noteq> None"
        using l' by (intro "1.prems") auto
      then show "dot wrm qrm wr (qr + 1 + (l' - (l + 1))) k n \<noteq> Inl OutOfBounds \<and>
        qsm1 (qs + qst + (l' - (l + 1)) * qst) \<noteq> None"
        unfolding e1 e2 by (simp add: qsm1_def)
    qed
    then obtain qsm' where
      r: "reconstruct_qs_l_loop wrm qrm k n qst (l + 1) wr (qs + qst) (qr + 1) qsm1 = Inr qsm'"
      and dm: "\<forall>p. (qsm' p = None) = (qsm1 p = None)" by blast
    have "\<forall>p. (qsm' p = None) = (qsm p = None)" using dm y by (simp add: qsm1_def)
    then show ?thesis
      using True d st r
      by (simp add: reconstruct_qs_l_loop.simps [of wrm qrm k n qst l wr qs qr qsm])
  qed
qed

lemma reconstruct_qs_cells_ok:
  "strides qs_py = s0 # s1 # ss \<Longrightarrow> strides qr_py = [k * n, n, 1] \<Longrightarrow>
   (\<And>i' l. i \<le> i' \<Longrightarrow> i' \<le> imax \<Longrightarrow> 0 \<le> l \<Longrightarrow> l < n \<Longrightarrow>
      dot wrm (data qr_py) (wr + (i' - i) * k) (i' * k * n + l) k n \<noteq> Inl OutOfBounds \<and>
      data qs_py (i' * s0 + l * qst) \<noteq> None) \<Longrightarrow>
   \<exists>qs_py'. reconstruct_qs_cells wrm qr_py k n qst i imax wr qs_py = Inr qs_py'"
proof (induction wrm qr_py k n qst i imax wr qs_py rule: reconstruct_qs_cells.induct)
  case (1 wrm qr_py k n qst i imax wr qs_py)
  note sqs = "1.prems"(1) and sqr = "1.prems"(2) and al = "1.prems"(3)
  show ?case
  proof (cases "i \<le> imax")
    case False
    then show ?thesis
      by (simp add: reconstruct_qs_cells.simps [of wrm qr_py k n qst i imax wr qs_py])
  next
    case True
    have gqs: "PyArray_GETPTR2 qs_py i 0 = Inr (i * s0)"
      using sqs by (simp add: PyArray_GETPTR2_def)
    have gqr: "PyArray_GETPTR3 qr_py i 0 0 = Inr (i * k * n)"
      using sqr by (simp add: PyArray_GETPTR3_def algebra_simps)
    have "\<exists>qsm'. reconstruct_qs_l_loop wrm (data qr_py) k n qst 0 wr (i * s0) (i * k * n)
        (data qs_py) = Inr qsm' \<and> (\<forall>p. (qsm' p = None) = (data qs_py p = None))"
    proof (rule reconstruct_qs_l_loop_ok)
      fix l' :: int assume "0 \<le> l'" "l' < n"
      then have "dot wrm (data qr_py) (wr + (i - i) * k) (i * k * n + l') k n \<noteq> Inl OutOfBounds \<and>
        data qs_py (i * s0 + l' * qst) \<noteq> None"
        using True by (intro al) auto
      then show "dot wrm (data qr_py) wr (i * k * n + (l' - 0)) k n \<noteq> Inl OutOfBounds \<and>
        data qs_py (i * s0 + (l' - 0) * qst) \<noteq> None"
        by simp
    qed
    then obtain qsm where
      lp: "reconstruct_qs_l_loop wrm (data qr_py) k n qst 0 wr (i * s0) (i * k * n)
        (data qs_py) = Inr qsm"
      and dm: "\<forall>p. (qsm p = None) = (data qs_py p = None)" by blast
    have "\<exists>qs_py'. reconstruct_qs_cells wrm qr_py k n qst (i + 1) imax (wr + k)
        (qs_py\<lparr>data := qsm\<rparr>) = Inr qs_py'"
    proof (rule "1.IH" [OF True gqs gqr lp _ sqr])
      show "strides (qs_py\<lparr>data := qsm\<rparr>) = s0 # s1 # ss" using sqs by simp
    next
      fix i' l assume h: "i + 1 \<le> i'" "i' \<le> imax" "0 \<le> l" "l < n"
      have e: "wr + k + (i' - (i + 1)) * k = wr + (i' - i) * k" by (simp add: algebra_simps)
      have "dot wrm (data qr_py) (wr + (i' - i) * k) (i' * k * n + l) k n \<noteq> Inl OutOfBounds \<and>
        data qs_py (i' * s0 + l * qst) \<noteq> None"
        using h by (intro al) auto
      then show "dot wrm (data qr_py) (wr + k + (i' - (i + 1)) * k) (i' * k * n + l) k n
          \<noteq> Inl OutOfBounds \<and>
        data (qs_py\<lparr>data := qsm\<rparr>) (i' * s0 + l * qst) \<noteq> None"
        unfolding e using dm by simp
    qed
    then obtain qs_py' where
      rec: "reconstruct_qs_cells wrm qr_py k n qst (i + 1) imax (wr + k)
        (qs_py\<lparr>data := qsm\<rparr>) = Inr qs_py'" by blast
    show ?thesis
      using True gqs gqr lp rec
      by (simp add: reconstruct_qs_cells.simps [of wrm qr_py k n qst i imax wr qs_py])
  qed
qed

text \<open>
  Claim C4.  Let \<open>c\<close>, \<open>qr\<close> and \<open>wr\<close> be contiguous arrays of shapes \<open>(N, k, n, k)\<close>,
  \<open>(N, k, n)\<close> and \<open>(N, k)\<close>, let \<open>q\<close> have the element stride \<open>st\<close> and \<open>qs\<close> the
  strides \<open>s0\<close> and \<open>s1\<close>, and let the elements the call reads and writes be
  allocated, \<open>c\<close> holding \<open>C i r l j\<close> and \<open>q\<close> holding \<open>Q m\<close> at cell \<open>m\<close>.  Then
  reconstruct returns None, and for every cell \<open>i\<close> in \<open>[imin, imax]\<close>, every shift
  \<open>r\<close> in \<open>[max(0, s), min(k-1+s, k-1)]\<close> and every point \<open>l\<close> in \<open>[0, n)\<close> the
  element \<open>qr[i,r,l]\<close> holds the sum of \<open>c[i,r,l,j] * q[i-r+j]\<close>, formed from the
  product for \<open>j = 0\<close> by adding the products for \<open>j = 1, ..., k-1\<close> one after the
  other.  The element type has an addition and a multiplication and no law, so no
  other order of the sum is meant.
\<close>

theorem reconstruct_qr_dot:
  assumes lay: "flags c_py AND NPY_IN_ARRAY = NPY_IN_ARRAY"
      "flags wr_py AND NPY_IN_ARRAY = NPY_IN_ARRAY" "flags qr_py AND NPY_IN_ARRAY = NPY_IN_ARRAY"
    and dc: "dims c_py = [N, k, n, k]"
    and sc: "strides c_py = [k * n * k, n * k, k, 1]"
    and sqr: "strides qr_py = [k * n, n, 1]"
    and swr: "strides wr_py = [k, 1]"
    and sq: "strides q_py = st # sts"
    and sqs: "strides qs_py = s0 # s1 # ss"
    and k: "1 \<le> k" "k < 2 ^ 31" and n: "0 \<le> n" "n < 2 ^ 31"
    and st: "- (2 ^ 31) \<le> st" "st < 2 ^ 31" and s1: "- (2 ^ 31) \<le> s1" "s1 < 2 ^ 31"
    and cc: "\<forall>i r l j. imin \<le> i \<and> i \<le> imax \<and> max 0 s \<le> r \<and> r \<le> min (k - 1 + s) (k - 1) \<and>
        0 \<le> l \<and> l < n \<and> 0 \<le> j \<and> j < k \<longrightarrow>
      data c_py (((i * k + r) * n + l) * k + j) = Some (C i r l j)"
    and qq: "\<forall>i r j. imin \<le> i \<and> i \<le> imax \<and> max 0 s \<le> r \<and> r \<le> min (k - 1 + s) (k - 1) \<and>
        0 \<le> j \<and> j < k \<longrightarrow>
      data q_py ((i - r + j) * st) = Some (Q (i - r + j))"
    and aqr: "\<forall>i r l. imin \<le> i \<and> i \<le> imax \<and> 0 \<le> r \<and> r < k \<and> 0 \<le> l \<and> l < n \<longrightarrow>
      data qr_py ((i * k + r) * n + l) \<noteq> None"
    and awr: "\<forall>i r. imin \<le> i \<and> i \<le> imax \<and> 0 \<le> r \<and> r < k \<longrightarrow> data wr_py (i * k + r) \<noteq> None"
    and aqs: "\<forall>i l. imin \<le> i \<and> i \<le> imax \<and> 0 \<le> l \<and> l < n \<longrightarrow>
      data qs_py (i * s0 + l * s1) \<noteq> None"
  shows "\<exists>qr_py' qs_py'.
    reconstruct q_py s imin imax c_py wr_py qr_py qs_py = Inr (Py_None, qr_py', qs_py') \<and>
    (\<forall>i r l. imin \<le> i \<and> i \<le> imax \<and> max 0 s \<le> r \<and> r \<le> min (k - 1 + s) (k - 1) \<and>
        0 \<le> l \<and> l < n \<longrightarrow>
      data qr_py' ((i * k + r) * n + l) =
        Some (foldl (\<lambda>d j. d + C i r l j * Q (i - r + j)) (C i r l 0 * Q (i - r)) [1..k - 1]))"
proof -
  have ck: "c_int k = k" using k by (intro c_int_id) auto
  have cn: "c_int n = n" using n by (intro c_int_id) auto
  have cst: "c_int st = st" using st by (intro c_int_id) auto
  have cs1: "c_int s1 = s1" using s1 by (intro c_int_id) auto
  have d1: "dot (data c_py) (data q_py) (((i * k + r) * n + l) * k) ((i - r) * st) k st =
      Inr (foldl (\<lambda>d j. d + C i r l j * Q (i - r + j)) (C i r l 0 * Q (i - r)) [1..k - 1])"
    if h: "imin \<le> i" "i \<le> imax" "max 0 s \<le> r" "r \<le> min (k - 1 + s) (k - 1)" "0 \<le> l" "l < n"
    for i r l
  proof -
    define cb where "cb = ((i * k + r) * n + l) * k"
    define qb where "qb = (i - r) * st"
    have c: "data c_py (cb + j) = Some (C i r l j)" if "0 \<le> j" "j < k" for j
      using cc h that unfolding cb_def by blast
    have q: "data q_py (qb + j * st) = Some (Q (i - r + j))" if "0 \<le> j" "j < k" for j
    proof -
      have "data q_py ((i - r + j) * st) = Some (Q (i - r + j))" using qq h that by blast
      then show ?thesis by (simp add: qb_def algebra_simps)
    qed
    have "dot (data c_py) (data q_py) cb qb k st = Inr (dot_sum (data c_py) (data q_py) cb qb k st)"
      using c q k by (intro dot_alloc) auto
    moreover have "dot_sum (data c_py) (data q_py) cb qb k st =
      foldl (\<lambda>d j. d + C i r l j * Q (i - r + j)) (C i r l 0 * Q (i - r)) [1..k - 1]"
    proof -
      have 0: "the (data c_py cb) * the (data q_py qb) = C i r l 0 * Q (i - r)"
        using c [of 0] q [of 0] k by simp
      have "foldl (\<lambda>d j. d + the (data c_py (cb + j)) * the (data q_py (qb + j * st))) x [1..k - 1] =
        foldl (\<lambda>d j. d + C i r l j * Q (i - r + j)) x [1..k - 1]" for x
        by (rule foldl_cong) (use c q in auto)
      then show ?thesis by (simp add: dot_sum_def 0)
    qed
    ultimately show ?thesis by (simp add: cb_def qb_def)
  qed
  have "\<exists>qr_py'. reconstruct_qr_cells q_py c_py k st n s imin imax qr_py = Inr qr_py' \<and>
     strides qr_py' = strides qr_py \<and> (\<forall>p. (data qr_py' p = None) = (data qr_py p = None))"
  proof (rule reconstruct_qr_cells_ok [OF sc sqr sq])
    fix i r l
    assume h: "imin \<le> i" "i \<le> imax" "max 0 s \<le> r" "r \<le> min (k - 1 + s) (k - 1)" "0 \<le> l" "l < n"
    have "data qr_py ((i * k + r) * n + l) \<noteq> None" using aqr h by simp
    then show "dot (data c_py) (data q_py) (((i * k + r) * n + l) * k) ((i - r) * st) k st
          \<noteq> Inl OutOfBounds \<and> data qr_py ((i * k + r) * n + l) \<noteq> None"
      using d1 [OF h] by simp
  qed
  then obtain qr_py' where
    p1: "reconstruct_qr_cells q_py c_py k st n s imin imax qr_py = Inr qr_py'"
    and sqr': "strides qr_py' = [k * n, n, 1]"
    and dqr': "\<forall>p. (data qr_py' p = None) = (data qr_py p = None)"
    using sqr by auto
  have k0: "0 \<le> k" using k by simp
  note V = reconstruct_qr_cells_Inr [OF p1 sc sqr sq n(1) k0]
  have val: "data qr_py' ((i * k + r) * n + l) =
        Some (foldl (\<lambda>d j. d + C i r l j * Q (i - r + j)) (C i r l 0 * Q (i - r)) [1..k - 1])"
    if h: "imin \<le> i \<and> i \<le> imax \<and> max 0 s \<le> r \<and> r \<le> min (k - 1 + s) (k - 1) \<and> 0 \<le> l \<and> l < n"
    for i r l
  proof -
    have "data qr_py' ((i * k + r) * n + l) =
        Some (dot_sum (data c_py) (data q_py) (((i * k + r) * n + l) * k) ((i - r) * st) k st) \<and>
      dot (data c_py) (data q_py) (((i * k + r) * n + l) * k) ((i - r) * st) k st =
        Inr (dot_sum (data c_py) (data q_py) (((i * k + r) * n + l) * k) ((i - r) * st) k st)"
      using V h by blast
    then show ?thesis using d1 [of i r l] h by simp
  qed
  have "\<exists>qs_py'. reconstruct_qs_cells (data wr_py) qr_py' k n s1 imin imax (imin * k) qs_py =
      Inr qs_py'"
  proof (rule reconstruct_qs_cells_ok [OF sqs sqr'])
    fix i l assume h: "imin \<le> i" "i \<le> imax" "0 \<le> l" "l < n"
    have "dot (data wr_py) (data qr_py') (i * k) (i * k * n + l) k n =
      Inr (dot_sum (data wr_py) (data qr_py') (i * k) (i * k * n + l) k n)"
    proof (rule dot_alloc)
      fix j :: int assume j: "0 \<le> j" "j < max 1 k"
      then have jk: "j < k" using k by simp
      have "data wr_py (i * k + j) \<noteq> None" using awr h j(1) jk by simp
      moreover have "data qr_py ((i * k + j) * n + l) \<noteq> None" using aqr h j(1) jk by simp
      then have "data qr_py' (i * k * n + l + j * n) \<noteq> None"
        using dqr' by (simp add: algebra_simps)
      ultimately show "data wr_py (i * k + j) \<noteq> None \<and> data qr_py' (i * k * n + l + j * n) \<noteq> None"
        by simp
    qed
    moreover have "imin * k + (i - imin) * k = i * k" by (simp add: algebra_simps)
    moreover have "data qs_py (i * s0 + l * s1) \<noteq> None" using aqs h by simp
    ultimately show "dot (data wr_py) (data qr_py') (imin * k + (i - imin) * k) (i * k * n + l) k n
        \<noteq> Inl OutOfBounds \<and> data qs_py (i * s0 + l * s1) \<noteq> None"
      by simp
  qed
  then obtain qs_py' where
    p2: "reconstruct_qs_cells (data wr_py) qr_py' k n s1 imin imax (imin * k) qs_py = Inr qs_py'"
    by blast
  have "reconstruct q_py s imin imax c_py wr_py qr_py qs_py = Inr (Py_None, qr_py', qs_py')"
    using lay dc sq sqs swr p1 p2
    by (simp add: reconstruct_def PyArray_DIM_def PyArray_GETPTR1_def PyArray_GETPTR2_def
        ck cn cst cs1)
  then show ?thesis using val by blast
qed


theorem reconstruct_qr_dot_witness:
  "\<exists>qr_py' qs_py'.
    reconstruct ex_q 0 1 1 ex_c ex_wr ex_qr ex_qs = Inr (Py_None, qr_py', qs_py') \<and>
    data qr_py' ((1 * 2 + 0) * 1 + 0) = Some (1 * 2 + 2 * 4) \<and>
    data qr_py' ((1 * 2 + 1) * 1 + 0) = Some (3 * 1 + 5 * 2)"
proof -
  define C where "C = (\<lambda>i r l j. the (data ex_c (((i * 2 + r) * 1 + l) * 2 + j)))"
  define Q where "Q = (\<lambda>m. the (data ex_q (m * 2)))"
  have lay: "flags ex_c AND NPY_IN_ARRAY = NPY_IN_ARRAY"
    "flags ex_wr AND NPY_IN_ARRAY = NPY_IN_ARRAY" "flags ex_qr AND NPY_IN_ARRAY = NPY_IN_ARRAY"
    by (simp_all add: ex_defs)
  have dc: "dims ex_c = [3, 2, 1, 2]" by (simp add: ex_defs)
  have sc: "strides ex_c = [2 * 1 * 2, 1 * 2, 2, 1]" by (simp add: ex_defs)
  have sqr: "strides ex_qr = [2 * 1, 1, 1]" by (simp add: ex_defs)
  have swr: "strides ex_wr = [2, 1]" by (simp add: ex_defs)
  have sq: "strides ex_q = 2 # []" by (simp add: ex_defs)
  have sqs: "strides ex_qs = 1 # 1 # []" by (simp add: ex_defs)
  have cc: "\<forall>i r l j. 1 \<le> i \<and> i \<le> 1 \<and> max 0 0 \<le> r \<and> r \<le> min (2 - 1 + 0) (2 - 1) \<and>
        0 \<le> l \<and> l < 1 \<and> 0 \<le> j \<and> j < 2 \<longrightarrow>
      data ex_c (((i * 2 + r) * 1 + l) * 2 + j) = Some (C i r l j)"
    by (auto simp: C_def ex_defs buffer_of_def)
  have qq: "\<forall>i r j. 1 \<le> i \<and> i \<le> 1 \<and> max 0 0 \<le> r \<and> r \<le> min (2 - 1 + 0) (2 - 1) \<and>
        0 \<le> j \<and> j < 2 \<longrightarrow>
      data ex_q ((i - r + j) * 2) = Some (Q (i - r + j))"
    by (auto simp: Q_def ex_defs buffer_of_def)
  have aqr: "\<forall>i r l. 1 \<le> i \<and> i \<le> 1 \<and> 0 \<le> r \<and> r < 2 \<and> 0 \<le> l \<and> l < 1 \<longrightarrow>
      data ex_qr ((i * 2 + r) * 1 + l) \<noteq> None"
    by (auto simp: ex_defs buffer_of_def)
  have awr: "\<forall>i r. 1 \<le> i \<and> i \<le> 1 \<and> 0 \<le> r \<and> r < 2 \<longrightarrow> data ex_wr (i * 2 + r) \<noteq> None"
    by (auto simp: ex_defs buffer_of_def)
  have aqs: "\<forall>i l. 1 \<le> i \<and> i \<le> 1 \<and> 0 \<le> l \<and> l < 1 \<longrightarrow> data ex_qs (i * 1 + l * 1) \<noteq> None"
    by (auto simp: ex_defs buffer_of_def)
  have "\<exists>qr_py' qs_py'.
    reconstruct ex_q 0 1 1 ex_c ex_wr ex_qr ex_qs = Inr (Py_None, qr_py', qs_py') \<and>
    (\<forall>i r l. 1 \<le> i \<and> i \<le> 1 \<and> max 0 0 \<le> r \<and> r \<le> min (2 - 1 + 0) (2 - 1) \<and> 0 \<le> l \<and> l < 1 \<longrightarrow>
      data qr_py' ((i * 2 + r) * 1 + l) =
        Some (foldl (\<lambda>d j. d + C i r l j * Q (i - r + j)) (C i r l 0 * Q (i - r)) [1..2 - 1]))"
    by (rule reconstruct_qr_dot [OF lay dc sc sqr swr sq sqs _ _ _ _ _ _ _ _ cc qq aqr awr aqs])
      simp_all
  then obtain qr_py' qs_py' where
    run: "reconstruct ex_q 0 1 1 ex_c ex_wr ex_qr ex_qs = Inr (Py_None, qr_py', qs_py')"
    and val: "\<And>i r l. 1 \<le> i \<and> i \<le> 1 \<and> max 0 0 \<le> r \<and> r \<le> min (2 - 1 + 0) (2 - 1) \<and> 0 \<le> l \<and> l < 1 \<Longrightarrow>
      data qr_py' ((i * 2 + r) * 1 + l) =
        Some (foldl (\<lambda>d j. d + C i r l j * Q (i - r + j)) (C i r l 0 * Q (i - r)) [1..2 - 1])"
    by blast
  have u: "[1..2 - 1] = [1::int]" by (simp add: upto_rec1)
  have "data qr_py' ((1 * 2 + 0) * 1 + 0) = Some (1 * 2 + 2 * 4)"
    using val [of 1 0 0] by (simp add: u C_def Q_def ex_defs buffer_of_def)
  moreover have "data qr_py' ((1 * 2 + 1) * 1 + 0) = Some (3 * 1 + 5 * 2)"
    using val [of 1 1 0] by (simp add: u C_def Q_def ex_defs buffer_of_def)
  ultimately show ?thesis using run by blast
qed


section \<open>reconstruct: the weights it reads\<close>

lemma reconstruct_qs_l_loop_cong:
  "(\<And>j. 0 \<le> j \<Longrightarrow> j < max 1 k \<Longrightarrow> wrm (wr + j) = wrm' (wr + j)) \<Longrightarrow>
   reconstruct_qs_l_loop wrm qrm k n qst l wr qs qr qsm =
   reconstruct_qs_l_loop wrm' qrm k n qst l wr qs qr qsm"
proof (induction wrm qrm k n qst l wr qs qr qsm rule: reconstruct_qs_l_loop.induct)
  case (1 wrm qrm k n qst l wr qs qr qsm)
  have d: "dot wrm' qrm wr qr k n = dot wrm qrm wr qr k n"
    using "1.prems" by (intro dot_cong) auto
  note unf = reconstruct_qs_l_loop.simps [of wrm qrm k n qst l]
    reconstruct_qs_l_loop.simps [of wrm' qrm k n qst l]
  show ?case
  proof (cases "l < n")
    case False
    then show ?thesis by (simp add: unf)
  next
    case True
    show ?thesis
    proof (cases "dot wrm qrm wr qr k n")
      case (Inl e)
      then show ?thesis using True by (simp add: unf d)
    next
      case (Inr x)
      note dx = Inr
      show ?thesis
      proof (cases "store qsm qs x")
        case (Inl e)
        then show ?thesis using dx True by (simp add: unf d)
      next
        case (Inr qsm1)
        have "reconstruct_qs_l_loop wrm qrm k n qst (l + 1) wr (qs + qst) (qr + 1) qsm1 =
              reconstruct_qs_l_loop wrm' qrm k n qst (l + 1) wr (qs + qst) (qr + 1) qsm1"
          using "1.IH" [OF True dx Inr] "1.prems" by simp
        then show ?thesis using dx Inr True by (simp add: unf d)
      qed
    qed
  qed
qed

lemma reconstruct_qs_cells_cong:
  "1 \<le> k \<Longrightarrow> (\<And>p. wr \<le> p \<Longrightarrow> p < wr + (imax + 1 - i) * k \<Longrightarrow> wrm p = wrm' p) \<Longrightarrow>
   reconstruct_qs_cells wrm qr_py k n qst i imax wr qs_py =
   reconstruct_qs_cells wrm' qr_py k n qst i imax wr qs_py"
proof (induction wrm qr_py k n qst i imax wr qs_py rule: reconstruct_qs_cells.induct)
  case (1 wrm qr_py k n qst i imax wr qs_py)
  note k1 = "1.prems"(1)
  show ?case
  proof (cases "i \<le> imax")
    case False
    then show ?thesis by (simp add: reconstruct_qs_cells.simps)
  next
    case True
    have "1 * k \<le> (imax + 1 - i) * k" using True k1 by (intro mult_right_mono) auto
    then have kk: "k \<le> (imax + 1 - i) * k" by simp
    have e: "wr + k + (imax + 1 - (i + 1)) * k = wr + (imax + 1 - i) * k"
      by (simp add: algebra_simps)
    have L: "reconstruct_qs_l_loop wrm (data qr_py) k n qst 0 wr qs qr (data qs_py) =
          reconstruct_qs_l_loop wrm' (data qr_py) k n qst 0 wr qs qr (data qs_py)" for qs qr
    proof (rule reconstruct_qs_l_loop_cong)
      fix j :: int assume "0 \<le> j" "j < max 1 k"
      then have "wr \<le> wr + j" "wr + j < wr + (imax + 1 - i) * k" using kk k1 by linarith+
      then show "wrm (wr + j) = wrm' (wr + j)" by (rule "1.prems"(2))
    qed
    have R: "reconstruct_qs_cells wrm qr_py k n qst (i + 1) imax (wr + k) (qs_py\<lparr>data := qsm\<rparr>) =
          reconstruct_qs_cells wrm' qr_py k n qst (i + 1) imax (wr + k) (qs_py\<lparr>data := qsm\<rparr>)"
      if "PyArray_GETPTR2 qs_py i 0 = Inr qs" "PyArray_GETPTR3 qr_py i 0 0 = Inr qr"
        "reconstruct_qs_l_loop wrm (data qr_py) k n qst 0 wr qs qr (data qs_py) = Inr qsm"
      for qs qr qsm
      using "1.IH" [OF True that k1] "1.prems"(2) k1 e by auto
    show ?thesis
      using True L R
      by (simp add: reconstruct_qs_cells.simps [of wrm qr_py k n qst i]
            reconstruct_qs_cells.simps [of wrm' qr_py k n qst i] split: sum.splits)
  qed
qed

text \<open>
  Claim C6, as the code has it.  The second loop of reconstruct forms \<open>qs[i,l]\<close> from
  the whole row \<open>wr[i,0..k-1]\<close>, whatever the range of shifts of the cell (the comment
  in the source says that the weights of unused shifts are taken to be zero).  What
  the call returns, and the arrays \<open>qr\<close> and \<open>qs\<close> it leaves, are the same for two
  arrays \<open>wr\<close> that agree on the rows \<open>imin..imax\<close>: only entries of other rows are
  never read.
\<close>

theorem reconstruct_wr_rows:
  assumes dc: "dims c_py = [N, k, n, m]"
    and k: "1 \<le> k" "k < 2 ^ 31"
    and swr: "strides wr_py = [k, 1]"
    and same: "strides wr_py' = strides wr_py" "flags wr_py' = flags wr_py"
    and rows: "\<forall>p. imin * k \<le> p \<and> p < (imax + 1) * k \<longrightarrow> data wr_py' p = data wr_py p"
  shows "reconstruct q_py s imin imax c_py wr_py' qr_py qs_py =
         reconstruct q_py s imin imax c_py wr_py qr_py qs_py"
proof -
  have ck: "c_int k = k" using k by (intro c_int_id) auto
  have g: "PyArray_GETPTR2 wr_py' imin 0 = Inr (imin * k)"
    "PyArray_GETPTR2 wr_py imin 0 = Inr (imin * k)"
    using swr same by (simp_all add: PyArray_GETPTR2_def)
  have e: "imin * k + (imax + 1 - imin) * k = (imax + 1) * k" by (simp add: algebra_simps)
  have "reconstruct_qs_cells (data wr_py') qr1 k n' qst imin imax (imin * k) qs_py =
        reconstruct_qs_cells (data wr_py) qr1 k n' qst imin imax (imin * k) qs_py" for qr1 n' qst
    using rows k e by (intro reconstruct_qs_cells_cong) auto
  then show ?thesis
    using dc g same by (simp add: reconstruct_def PyArray_DIM_def ck cong: sum.case_cong)
qed

theorem reconstruct_wr_rows_witness:
  "reconstruct ex_q 0 1 1 ex_c (ex_wr\<lparr>data := (data ex_wr)(1 \<mapsto> 9)\<rparr>) ex_qr ex_qs =
   reconstruct ex_q 0 1 1 ex_c ex_wr ex_qr ex_qs"
proof -
  have dc: "dims ex_c = [3, 2, 1, 2]" by (simp add: ex_defs)
  have swr: "strides ex_wr = [2, 1]" by (simp add: ex_defs)
  have rows: "\<forall>p. 1 * 2 \<le> p \<and> p < (1 + 1) * 2 \<longrightarrow>
    data (ex_wr\<lparr>data := (data ex_wr)(1 \<mapsto> 9)\<rparr>) p = data ex_wr p" by simp
  show ?thesis
    by (rule reconstruct_wr_rows [OF dc _ _ swr _ _ rows]) simp_all
qed

text \<open>
  At cell 0 of three cells with \<open>k = 2\<close> the range of shifts of weights is \<open>[0, 0]\<close>.
  Two calls that differ only in \<open>wr[0,1]\<close>, which is 0 in the first and 5 in the
  second, leave \<open>qs[0,0] = 5\<close> and \<open>qs[0,0] = 40\<close>.
\<close>

theorem reconstruct_wr_rows_counterexample:
  "weights_rmin 3 2 0 = 0 \<and> weights_rmax 2 0 = 0 \<and>
   reconstruct bd_q (- 1) 0 0 bd_c bd_wr bd_qr ex_qs =
     Inr (Py_None, bd_qr\<lparr>data := (data bd_qr)(0 \<mapsto> 5)\<rparr>,
          ex_qs\<lparr>data := (data ex_qs)(0 \<mapsto> 5)\<rparr>) \<and>
   reconstruct bd_q (- 1) 0 0 bd_c (bd_wr\<lparr>data := (data bd_wr)(1 \<mapsto> 5)\<rparr>) bd_qr ex_qs =
     Inr (Py_None, bd_qr\<lparr>data := (data bd_qr)(0 \<mapsto> 5)\<rparr>,
          ex_qs\<lparr>data := (data ex_qs)(0 \<mapsto> 40)\<rparr>)"
  by (simp add: ex_defs run_simps weights_rmin_def weights_rmax_def)

section \<open>The layout checks\<close>

text \<open>
  Claim C8, as the code has it.  weights checks \<open>sigma\<close>, \<open>w\<close> and \<open>wr\<close>;
  reconstruct checks \<open>c\<close>, \<open>wr\<close> and \<open>qr\<close>, and not \<open>q\<close> and \<open>qs\<close>, which it
  reads and writes through their own strides.  When a checked array is not both
  contiguous and aligned the call returns a TypeError and every output array is as it
  was before the call.
\<close>

theorem layout_checks:
  "(flags sigma_py AND NPY_IN_ARRAY \<noteq> NPY_IN_ARRAY \<or> flags w_py AND NPY_IN_ARRAY \<noteq> NPY_IN_ARRAY \<or>
    flags wr_py AND NPY_IN_ARRAY \<noteq> NPY_IN_ARRAY \<longrightarrow>
      (\<exists>msg. weights ar imin imax sigma_py w_py wr_py = Inr (TypeError msg, wr_py))) \<and>
   (flags c_py AND NPY_IN_ARRAY \<noteq> NPY_IN_ARRAY \<or> flags wr_py AND NPY_IN_ARRAY \<noteq> NPY_IN_ARRAY \<or>
    flags qr_py AND NPY_IN_ARRAY \<noteq> NPY_IN_ARRAY \<longrightarrow>
      (\<exists>msg. reconstruct q_py s imin imax c_py wr_py qr_py qs_py =
        Inr (TypeError msg, qr_py, qs_py)))"
  by (simp add: weights_def reconstruct_def)

theorem layout_checks_witness:
  "flags ex_q AND NPY_IN_ARRAY \<noteq> NPY_IN_ARRAY \<and>
   (\<exists>msg. weights exact_arith 0 2 ex_q ex_wr ex_wr = Inr (TypeError msg, ex_wr)) \<and>
   (\<exists>msg. reconstruct ex_q 0 0 2 ex_q ex_wr ex_qr ex_qs = Inr (TypeError msg, ex_qr, ex_qs))"
proof -
  have f: "flags ex_q AND NPY_IN_ARRAY \<noteq> NPY_IN_ARRAY" by (simp add: ex_defs)
  show ?thesis
    using f layout_checks [where ar = exact_arith and sigma_py = ex_q and w_py = ex_wr
        and wr_py = ex_wr and imin = 0 and imax = 2 and c_py = ex_q and qr_py = ex_qr
        and q_py = ex_q and s = 0 and qs_py = ex_qs] by simp
qed

text \<open>
  The array \<open>q\<close> of this call is not contiguous; the call returns None and has
  written \<open>qr\<close> and \<open>qs\<close>.
\<close>

theorem layout_checks_counterexample:
  "flags ex_q AND NPY_IN_ARRAY \<noteq> NPY_IN_ARRAY \<and>
   reconstruct ex_q 0 1 1 ex_c ex_wr ex_qr ex_qs =
     Inr (Py_None, ex_qr\<lparr>data := (data ex_qr)(2 \<mapsto> 10, 3 \<mapsto> 13)\<rparr>,
          ex_qs\<lparr>data := (data ex_qs)(1 \<mapsto> 49 / 4)\<rparr>)"
  by (simp add: ex_defs run_simps)

section \<open>weights: the two loops over the shifts\<close>

lemma alpha_Some:
  "wm w = Some wv \<Longrightarrow> sm s = Some sv \<Longrightarrow> alpha ar wm w sm s = Inr (alpha_spec ar wv sv)"
  by (simp add: alpha_def alpha_spec_def)

lemma upto_lb: "(r::int) \<le> rmax \<Longrightarrow> [r..rmax] = r # [r + 1..rmax]"
  by (simp add: upto_rec1)

lemma weights_alpha_loop_total:
  "(\<And>j. r \<le> j \<Longrightarrow> j \<le> rmax \<Longrightarrow>
      wm (wb + j) = Some (W j) \<and> sm (sb + j) = Some (S j) \<and> wrm (wrb + j) \<noteq> None) \<Longrightarrow>
   w = wb + r \<Longrightarrow> wr = wrb + r \<Longrightarrow> sigma = sb + r \<Longrightarrow>
   weights_alpha_loop ar wm sm r rmax w wr sigma wrm sum_alpha =
     Inr (\<lambda>p. if wrb + r \<le> p \<and> p \<le> wrb + rmax
              then Some (alpha_spec ar (W (p - wrb)) (S (p - wrb)))
              else wrm p,
          foldl (fadd ar) sum_alpha (map (\<lambda>j. alpha_spec ar (W j) (S j)) [r..rmax]))"
proof (induction ar wm sm r rmax w wr sigma wrm sum_alpha rule: weights_alpha_loop.induct)
  case (1 ar wm sm r rmax w wr sigma wrm sum_alpha)
  show ?case
  proof (cases "r \<le> rmax")
    case False
    then show ?thesis by (auto simp: weights_alpha_loop.simps fun_eq_iff)
  next
    case True
    from "1.prems"(1) [of r] True obtain y where
      w: "wm (wb + r) = Some (W r)" and s: "sm (sb + r) = Some (S r)"
      and y: "wrm (wrb + r) = Some y"
      by auto
    define a where "a = alpha_spec ar (W r) (S r)"
    have al: "alpha ar wm w sm sigma = Inr a"
      using alpha_Some [of wm "wb + r" "W r" sm "sb + r" "S r" ar] w s "1.prems"
      by (simp add: a_def)
    have st: "store wrm wr a = Inr (wrm(wr \<mapsto> a))"
      using y "1.prems" by simp
    have ld: "load (wrm(wr \<mapsto> a)) wr = Inr a" by simp
    have IH: "weights_alpha_loop ar wm sm (r + 1) rmax (w + 1) (wr + 1) (sigma + 1)
        (wrm(wr \<mapsto> a)) (fadd ar sum_alpha a) =
      Inr (\<lambda>p. if wrb + (r + 1) \<le> p \<and> p \<le> wrb + rmax
                then Some (alpha_spec ar (W (p - wrb)) (S (p - wrb)))
                else (wrm(wr \<mapsto> a)) p,
           foldl (fadd ar) (fadd ar sum_alpha a)
             (map (\<lambda>j. alpha_spec ar (W j) (S j)) [r + 1..rmax]))"
      using "1.prems" by (intro "1.IH" [OF True al st ld]) auto
    have f: "(\<lambda>p. if wrb + (r + 1) \<le> p \<and> p \<le> wrb + rmax
                then Some (alpha_spec ar (W (p - wrb)) (S (p - wrb)))
                else (wrm(wr \<mapsto> a)) p) =
          (\<lambda>p. if wrb + r \<le> p \<and> p \<le> wrb + rmax
                then Some (alpha_spec ar (W (p - wrb)) (S (p - wrb)))
                else wrm p)"
      using True "1.prems"(3) by (auto simp: fun_eq_iff a_def)
    have g: "foldl (fadd ar) (fadd ar sum_alpha a)
             (map (\<lambda>j. alpha_spec ar (W j) (S j)) [r + 1..rmax]) =
       foldl (fadd ar) sum_alpha (map (\<lambda>j. alpha_spec ar (W j) (S j)) [r..rmax])"
      using True by (simp add: upto_lb [of r rmax] a_def)
    show ?thesis
      using True al st ld IH f g
      by (simp add: weights_alpha_loop.simps [of ar wm sm r rmax w wr sigma wrm sum_alpha])
  qed
qed

lemma weights_norm_loop_total:
  "(\<And>j. r \<le> j \<Longrightarrow> j \<le> rmax \<Longrightarrow> wrm (wrb + j) = Some (V j)) \<Longrightarrow>
   wr = wrb + r \<Longrightarrow>
   weights_norm_loop ar r rmax wr wrm sum_alpha =
     Inr (\<lambda>p. if wrb + r \<le> p \<and> p \<le> wrb + rmax then Some (fdiv ar (V (p - wrb)) sum_alpha)
              else wrm p)"
proof (induction ar r rmax wr wrm sum_alpha rule: weights_norm_loop.induct)
  case (1 ar r rmax wr wrm sum_alpha)
  show ?case
  proof (cases "r \<le> rmax")
    case False
    then show ?thesis by (auto simp: weights_norm_loop.simps fun_eq_iff)
  next
    case True
    have v: "wrm wr = Some (V r)" using "1.prems"(1) [of r] True "1.prems"(2) by simp
    have ld: "load wrm wr = Inr (V r)" using v by simp
    have st: "store wrm wr (fdiv ar (V r) sum_alpha) = Inr (wrm(wr \<mapsto> fdiv ar (V r) sum_alpha))"
      using v by simp
    have IH: "weights_norm_loop ar (r + 1) rmax (wr + 1) (wrm(wr \<mapsto> fdiv ar (V r) sum_alpha))
        sum_alpha =
      Inr (\<lambda>p. if wrb + (r + 1) \<le> p \<and> p \<le> wrb + rmax
               then Some (fdiv ar (V (p - wrb)) sum_alpha)
               else (wrm(wr \<mapsto> fdiv ar (V r) sum_alpha)) p)"
      using "1.prems" by (intro "1.IH" [OF True ld st]) auto
    have f: "(\<lambda>p. if wrb + (r + 1) \<le> p \<and> p \<le> wrb + rmax
               then Some (fdiv ar (V (p - wrb)) sum_alpha)
               else (wrm(wr \<mapsto> fdiv ar (V r) sum_alpha)) p) =
         (\<lambda>p. if wrb + r \<le> p \<and> p \<le> wrb + rmax then Some (fdiv ar (V (p - wrb)) sum_alpha)
              else wrm p)"
      using True "1.prems"(2) by (auto simp: fun_eq_iff)
    show ?thesis
      using True ld st IH f
      by (simp add: weights_norm_loop.simps [of ar r rmax wr wrm sum_alpha])
  qed
qed

section \<open>weights: the loop over the cells\<close>

lemma row_index_inj:
  fixes i i' r r' k :: int
  assumes "0 \<le> r" "r < k" "0 \<le> r'" "r' < k" "i * k + r = i' * k + r'"
  shows "i = i'"
proof -
  have "(i * k + r) div k = i" using assms(1,2) by simp
  moreover have "(i' * k + r') div k = i'" using assms(3,4) by simp
  ultimately show ?thesis using assms(5) by simp
qed

lemma weights_cells_total:
  "strides w_py = [k, 1] \<Longrightarrow> strides sigma_py = [k, 1] \<Longrightarrow> strides wr_py = [k, 1] \<Longrightarrow>
   1 \<le> k \<Longrightarrow> k \<le> N \<Longrightarrow> k < 2 ^ 31 \<Longrightarrow> 0 \<le> i \<Longrightarrow> imax < N \<Longrightarrow>
   (\<And>i' r. i \<le> i' \<Longrightarrow> i' \<le> imax \<Longrightarrow> admissible N k i' r \<Longrightarrow>
      data w_py (i' * k + r) = Some (W i' r) \<and> data sigma_py (i' * k + r) = Some (S i' r) \<and>
      data wr_py (i' * k + r) \<noteq> None) \<Longrightarrow>
   \<exists>wr_py'. weights_cells ar sigma_py w_py N k i imax wr_py = Inr wr_py' \<and>
     wr_py' = wr_py\<lparr>data := data wr_py'\<rparr> \<and>
     (\<forall>i' r. i \<le> i' \<and> i' \<le> imax \<and> admissible N k i' r \<longrightarrow>
        data wr_py' (i' * k + r) =
          Some (fdiv ar (alpha_spec ar (W i' r) (S i' r)) (alpha_sum ar N k W S i'))) \<and>
     (\<forall>p. (\<forall>i' r. i \<le> i' \<and> i' \<le> imax \<and> admissible N k i' r \<longrightarrow> p \<noteq> i' * k + r) \<longrightarrow>
        data wr_py' p = data wr_py p)"
proof (induction ar sigma_py w_py N k i imax wr_py rule: weights_cells.induct)
  case (1 ar sigma_py w_py N k i imax wr_py)
  note sw = "1.prems"(1) and ss = "1.prems"(2) and swr = "1.prems"(3)
    and k1 = "1.prems"(4) and kN = "1.prems"(5) and k31 = "1.prems"(6)
    and i0 = "1.prems"(7) and iN = "1.prems"(8)
    and cont = "1.prems"(9)
  show ?case
  proof (cases "i \<le> imax")
    case False
    then show ?thesis
      by (auto simp add: weights_cells.simps [of ar sigma_py w_py N k i imax wr_py])
  next
    case True
    define rmin where "rmin = weights_rmin N k i"
    define rmax where "rmax = weights_rmax k i"
    have rmin: "rmin = max 0 (i - (N - k) - 1)"
      unfolding rmin_def using k1 kN k31 i0 iN True by (intro weights_rmin_eq) auto
    have rmax: "rmax = min (k - 1) i"
      unfolding rmax_def using k1 k31 i0 by (intro weights_rmax_eq) auto
    have rng: "admissible N k i r = (rmin \<le> r \<and> r \<le> rmax)" for r
      by (simp add: admissible_def rmin_def rmax_def)
    define b where "b = i * k"
    have gw: "PyArray_GETPTR2 w_py i rmin = Inr (b + rmin)"
      and gwr: "PyArray_GETPTR2 wr_py i rmin = Inr (b + rmin)"
      and gs: "PyArray_GETPTR2 sigma_py i rmin = Inr (b + rmin)"
      using sw ss swr by (simp_all add: PyArray_GETPTR2_def b_def)
    define V where "V r = alpha_spec ar (W i r) (S i r)" for r
    define T where "T = alpha_sum ar N k W S i"
    have Vf: "(\<lambda>r. alpha_spec ar (W i r) (S i r)) = V"
      by (simp add: fun_eq_iff V_def)
    have T: "T = foldl (fadd ar) (flit ar 0) (map V [rmin..rmax])"
      by (simp add: T_def alpha_sum_def rmin_def rmax_def Vf)
    define wrm1 where "wrm1 = (\<lambda>p. if b + rmin \<le> p \<and> p \<le> b + rmax
        then Some (alpha_spec ar (W i (p - b)) (S i (p - b))) else data wr_py p)"
    have al: "weights_alpha_loop ar (data w_py) (data sigma_py) rmin rmax (b + rmin) (b + rmin)
        (b + rmin) (data wr_py) (flit ar 0) = Inr (wrm1, T)"
    proof -
      have "weights_alpha_loop ar (data w_py) (data sigma_py) rmin rmax (b + rmin) (b + rmin)
        (b + rmin) (data wr_py) (flit ar 0) =
        Inr (\<lambda>p. if b + rmin \<le> p \<and> p \<le> b + rmax
                  then Some (alpha_spec ar (W i (p - b)) (S i (p - b))) else data wr_py p,
             foldl (fadd ar) (flit ar 0) (map (\<lambda>j. alpha_spec ar (W i j) (S i j)) [rmin..rmax]))"
        using cont [of i] True
        by (intro weights_alpha_loop_total [where wb = b and sb = b and wrb = b])
          (auto simp: rng b_def)
      then show ?thesis by (simp add: wrm1_def T Vf)
    qed
    define wrm2 where "wrm2 = (\<lambda>p. if b + rmin \<le> p \<and> p \<le> b + rmax
        then Some (fdiv ar (V (p - b)) T) else wrm1 p)"
    have nl: "weights_norm_loop ar rmin rmax (b + rmin) wrm1 T = Inr wrm2"
      unfolding wrm2_def
      by (intro weights_norm_loop_total [where wrb = b]) (auto simp: wrm1_def V_def)
    have w2: "wrm2 p = (if b + rmin \<le> p \<and> p \<le> b + rmax then Some (fdiv ar (V (p - b)) T)
        else data wr_py p)" for p
      by (simp add: wrm2_def wrm1_def)
    have bounds: "0 \<le> weights_rmin N k i' \<and> weights_rmax k i' < k"
      if "i \<le> i'" "i' \<le> imax" for i'
      using that k1 kN k31 i0 iN by (simp add: weights_rmin_eq weights_rmax_eq)
    have IHp: "\<exists>wr_py'. weights_cells ar sigma_py w_py N k (i + 1) imax (wr_py\<lparr>data := wrm2\<rparr>) =
        Inr wr_py' \<and>
      wr_py' = wr_py\<lparr>data := wrm2\<rparr>\<lparr>data := data wr_py'\<rparr> \<and>
      (\<forall>i' r. i + 1 \<le> i' \<and> i' \<le> imax \<and> admissible N k i' r \<longrightarrow>
        data wr_py' (i' * k + r) =
          Some (fdiv ar (alpha_spec ar (W i' r) (S i' r)) (alpha_sum ar N k W S i'))) \<and>
      (\<forall>p. (\<forall>i' r. i + 1 \<le> i' \<and> i' \<le> imax \<and> admissible N k i' r \<longrightarrow> p \<noteq> i' * k + r) \<longrightarrow>
        data wr_py' p = data (wr_py\<lparr>data := wrm2\<rparr>) p)"
    proof (rule "1.IH" [OF True rmin_def rmax_def gw gwr gs al refl nl sw ss _ k1 kN k31 _ iN])
      show "strides (wr_py\<lparr>data := wrm2\<rparr>) = [k, 1]" using swr by simp
      show "0 \<le> i + 1" using i0 by simp
    next
      fix i' r assume h: "i + 1 \<le> i'" "i' \<le> imax" "admissible N k i' r"
      then have c: "data w_py (i' * k + r) = Some (W i' r) \<and>
        data sigma_py (i' * k + r) = Some (S i' r) \<and> data wr_py (i' * k + r) \<noteq> None"
        using cont [of i' r] by simp
      then have "wrm2 (i' * k + r) \<noteq> None" by (simp add: w2)
      then show "data w_py (i' * k + r) = Some (W i' r) \<and>
        data sigma_py (i' * k + r) = Some (S i' r) \<and>
        data (wr_py\<lparr>data := wrm2\<rparr>) (i' * k + r) \<noteq> None"
        using c by simp
    qed
    then obtain wr_py' where
      run: "weights_cells ar sigma_py w_py N k (i + 1) imax (wr_py\<lparr>data := wrm2\<rparr>) = Inr wr_py'"
      and rec: "wr_py' = wr_py\<lparr>data := wrm2\<rparr>\<lparr>data := data wr_py'\<rparr>"
      and val: "\<And>i' r. i + 1 \<le> i' \<Longrightarrow> i' \<le> imax \<Longrightarrow> admissible N k i' r \<Longrightarrow>
        data wr_py' (i' * k + r) =
          Some (fdiv ar (alpha_spec ar (W i' r) (S i' r)) (alpha_sum ar N k W S i'))"
      and frame: "\<And>p. (\<forall>i' r. i + 1 \<le> i' \<and> i' \<le> imax \<and> admissible N k i' r \<longrightarrow> p \<noteq> i' * k + r) \<Longrightarrow>
        data wr_py' p = wrm2 p"
      by auto
    have step: "weights_cells ar sigma_py w_py N k i imax wr_py = Inr wr_py'"
      using True gw gwr gs al nl run
      by (simp add: weights_cells.simps [of ar sigma_py w_py N k i imax wr_py]
          rmin_def [symmetric] rmax_def [symmetric])
    have A: "wr_py' = wr_py\<lparr>data := data wr_py'\<rparr>"
      using rec by (metis ndarray.surjective ndarray.update_convs(4))
    have B: "data wr_py' (i' * k + r) =
        Some (fdiv ar (alpha_spec ar (W i' r) (S i' r)) (alpha_sum ar N k W S i'))"
      if h: "i \<le> i'" "i' \<le> imax" "admissible N k i' r" for i' r
    proof (cases "i' = i")
      case False
      then show ?thesis using val [of i' r] h by simp
    next
      case True
      have r: "rmin \<le> r" "r \<le> rmax" using h True by (simp_all add: rng)
      have rb: "0 \<le> r" "r < k" using r bounds [of i] \<open>i \<le> imax\<close>
        by (simp_all add: rmin_def rmax_def)
      have "\<forall>i'' r''. i + 1 \<le> i'' \<and> i'' \<le> imax \<and> admissible N k i'' r'' \<longrightarrow>
          i * k + r \<noteq> i'' * k + r''"
      proof (intro allI impI notI)
        fix i'' r'' assume a: "i + 1 \<le> i'' \<and> i'' \<le> imax \<and> admissible N k i'' r''"
          and e: "i * k + r = i'' * k + r''"
        have "0 \<le> r''" "r'' < k" using a bounds [of i''] by (auto simp: admissible_def)
        then have "i = i''" using row_index_inj [OF rb _ _ e] by simp
        then show False using a by simp
      qed
      then have "data wr_py' (i * k + r) = wrm2 (i * k + r)" by (rule frame)
      also have "\<dots> = Some (fdiv ar (V r) T)" using r by (simp add: w2 b_def)
      finally show ?thesis using True by (simp add: V_def T_def)
    qed
    have C: "data wr_py' p = data wr_py p"
      if h: "\<forall>i' r. i \<le> i' \<and> i' \<le> imax \<and> admissible N k i' r \<longrightarrow> p \<noteq> i' * k + r" for p
    proof -
      have "\<forall>i' r. i + 1 \<le> i' \<and> i' \<le> imax \<and> admissible N k i' r \<longrightarrow> p \<noteq> i' * k + r"
        using h by auto
      then have "data wr_py' p = wrm2 p" by (rule frame)
      moreover have "\<not> (b + rmin \<le> p \<and> p \<le> b + rmax)"
      proof
        assume "b + rmin \<le> p \<and> p \<le> b + rmax"
        then have "admissible N k i (p - b)" by (simp add: rng)
        then have "p \<noteq> i * k + (p - b)" using h \<open>i \<le> imax\<close> by blast
        then show False by (simp add: b_def)
      qed
      ultimately show ?thesis by (simp add: w2)
    qed
    show ?thesis using step A B C by blast
  qed
qed

lemma weights_total:
  assumes lay: "c_layout sigma_py [N, k]" "c_layout w_py [N, k]" "c_layout wr_py [N, k]"
    and k: "1 \<le> k" "k \<le> N" "k < 2 ^ 31"
    and cells: "0 \<le> imin" "imax < N"
    and cont: "\<And>i r. imin \<le> i \<Longrightarrow> i \<le> imax \<Longrightarrow> admissible N k i r \<Longrightarrow>
      data w_py (i * k + r) = Some (W i r) \<and> data sigma_py (i * k + r) = Some (S i r) \<and>
      data wr_py (i * k + r) \<noteq> None"
  shows "\<exists>wr_py'. weights ar imin imax sigma_py w_py wr_py = Inr (Py_None, wr_py') \<and>
     (\<forall>i r. imin \<le> i \<and> i \<le> imax \<and> admissible N k i r \<longrightarrow>
        data wr_py' (i * k + r) =
          Some (fdiv ar (alpha_spec ar (W i r) (S i r)) (alpha_sum ar N k W S i))) \<and>
     (\<forall>p. (\<forall>i r. imin \<le> i \<and> i \<le> imax \<and> admissible N k i r \<longrightarrow> p \<noteq> i * k + r) \<longrightarrow>
        data wr_py' p = data wr_py p)"
proof -
  have st: "strides w_py = [k, 1]" "strides sigma_py = [k, 1]" "strides wr_py = [k, 1]"
    using lay by (simp_all add: c_layout_def)
  have ck: "c_int k = k" using k by (intro c_int_id) auto
  obtain wr_py' where
    run: "weights_cells ar sigma_py w_py N k imin imax wr_py = Inr wr_py'"
    and val: "\<forall>i r. imin \<le> i \<and> i \<le> imax \<and> admissible N k i r \<longrightarrow>
        data wr_py' (i * k + r) =
          Some (fdiv ar (alpha_spec ar (W i r) (S i r)) (alpha_sum ar N k W S i))"
    and frame: "\<forall>p. (\<forall>i r. imin \<le> i \<and> i \<le> imax \<and> admissible N k i r \<longrightarrow> p \<noteq> i * k + r) \<longrightarrow>
        data wr_py' p = data wr_py p"
    using weights_cells_total [OF st k cells cont] by blast
  have "weights ar imin imax sigma_py w_py wr_py = Inr (Py_None, wr_py')"
    using lay run by (simp add: weights_def c_layout_def PyArray_DIM_def ck)
  then show ?thesis using val frame by blast
qed

text \<open>
  Claim C5.  On contiguous arrays of shape \<open>(N, k)\<close> whose elements are allocated,
  for cells \<open>imin..imax\<close> inside \<open>[0, N)\<close>: every call of alpha that weights makes
  returns \<open>w[i,r] / ((\<epsilon> + sigma[i,r]) * (\<epsilon> + sigma[i,r]))\<close>, where \<open>\<epsilon>\<close> is the
  double of the decimal constant \<open>1/100000\<close>; and weights returns None with
  \<open>wr[i,r]\<close> that value divided by the sum of those values over the shifts of the
  cell.  The operations are those of the arithmetic, of which nothing is assumed.
\<close>

theorem weights_alpha_values:
  assumes lay: "c_layout sigma_py [N, k]" "c_layout w_py [N, k]" "c_layout wr_py [N, k]"
    and k: "1 \<le> k" "k \<le> N" "k < 2 ^ 31"
    and cells: "0 \<le> imin" "imax < N"
    and cont: "\<forall>i r. imin \<le> i \<and> i \<le> imax \<and> admissible N k i r \<longrightarrow>
      data w_py (i * k + r) = Some (W i r) \<and> data sigma_py (i * k + r) = Some (S i r) \<and>
      data wr_py (i * k + r) \<noteq> None"
  shows "(\<forall>i r. imin \<le> i \<and> i \<le> imax \<and> admissible N k i r \<longrightarrow>
        alpha ar (data w_py) (i * k + r) (data sigma_py) (i * k + r) =
          Inr (fdiv ar (W i r)
                 (fmul ar (fadd ar (flit ar (1 / 100000)) (S i r))
                          (fadd ar (flit ar (1 / 100000)) (S i r))))) \<and>
     (\<exists>wr_py'. weights ar imin imax sigma_py w_py wr_py = Inr (Py_None, wr_py') \<and>
        (\<forall>i r. imin \<le> i \<and> i \<le> imax \<and> admissible N k i r \<longrightarrow>
           data wr_py' (i * k + r) =
             Some (fdiv ar (alpha_spec ar (W i r) (S i r)) (alpha_sum ar N k W S i))))"
proof -
  have c: "data w_py (i * k + r) = Some (W i r) \<and> data sigma_py (i * k + r) = Some (S i r) \<and>
      data wr_py (i * k + r) \<noteq> None"
    if "imin \<le> i" "i \<le> imax" "admissible N k i r" for i r
    using cont that by blast
  have A: "alpha ar (data w_py) (i * k + r) (data sigma_py) (i * k + r) =
          Inr (fdiv ar (W i r)
                 (fmul ar (fadd ar (flit ar (1 / 100000)) (S i r))
                          (fadd ar (flit ar (1 / 100000)) (S i r))))"
    if "imin \<le> i" "i \<le> imax" "admissible N k i r" for i r
    using c [OF that] by (simp add: alpha_Some alpha_spec_def)
  from weights_total [OF lay k cells c, of ar] obtain wr_py' where
    B: "weights ar imin imax sigma_py w_py wr_py = Inr (Py_None, wr_py')"
      "\<forall>i r. imin \<le> i \<and> i \<le> imax \<and> admissible N k i r \<longrightarrow>
        data wr_py' (i * k + r) =
          Some (fdiv ar (alpha_spec ar (W i r) (S i r)) (alpha_sum ar N k W S i))"
    by blast
  show ?thesis using A B by blast
qed

lemma r5_layout: "c_layout r5_sigma [5, 3]" "c_layout r5_w [5, 3]" "c_layout r5_wr [5, 3]"
  by (simp_all add: c_layout_def r5_defs)

lemma admissible_5_3_4: "admissible 5 3 4 r = (r = 1 \<or> r = 2)"
  by (auto simp add: admissible_def weights_rmin_def weights_rmax_def c_int_def)

theorem weights_alpha_values_witness:
  "c_layout r5_sigma [5, 3] \<and> c_layout r5_w [5, 3] \<and> c_layout r5_wr [5, 3] \<and>
   admissible 5 3 4 1 \<and>
   data r5_w (4 * 3 + 1) = Some (Lit (3 / 5)) \<and> data r5_sigma (4 * 3 + 1) = Some (Lit 1) \<and>
   alpha sym_arith (data r5_w) (4 * 3 + 1) (data r5_sigma) (4 * 3 + 1) =
     Inr (Div (Lit (3 / 5))
            (Mul (Add (Lit (1 / 100000)) (Lit 1)) (Add (Lit (1 / 100000)) (Lit 1)))) \<and>
   (\<exists>wr_py'. weights sym_arith 4 4 r5_sigma r5_w r5_wr = Inr (Py_None, wr_py') \<and>
      data wr_py' (4 * 3 + 1) =
        Some (Div (Div (Lit (3 / 5))
                    (Mul (Add (Lit (1 / 100000)) (Lit 1)) (Add (Lit (1 / 100000)) (Lit 1))))
               (Add (Add (Lit 0)
                      (Div (Lit (3 / 5))
                        (Mul (Add (Lit (1 / 100000)) (Lit 1)) (Add (Lit (1 / 100000)) (Lit 1)))))
                    (Div (Lit (3 / 10))
                      (Mul (Add (Lit (1 / 100000)) (Lit 2)) (Add (Lit (1 / 100000)) (Lit 2)))))))"
proof -
  define W :: "int \<Rightarrow> int \<Rightarrow> sym" where "W = (\<lambda>i r. if r = 1 then Lit (3 / 5) else Lit (3 / 10))"
  define S :: "int \<Rightarrow> int \<Rightarrow> sym" where "S = (\<lambda>i r. if r = 1 then Lit 1 else Lit 2)"
  have cont: "\<forall>i r. 4 \<le> i \<and> i \<le> 4 \<and> admissible 5 3 i r \<longrightarrow>
      data r5_w (i * 3 + r) = Some (W i r) \<and> data r5_sigma (i * 3 + r) = Some (S i r) \<and>
      data r5_wr (i * 3 + r) \<noteq> None"
  proof (intro allI impI)
    fix i r :: int
    assume "4 \<le> i \<and> i \<le> 4 \<and> admissible 5 3 i r"
    then have "i = 4" "r = 1 \<or> r = 2" by (auto simp: admissible_5_3_4)
    then show "data r5_w (i * 3 + r) = Some (W i r) \<and>
      data r5_sigma (i * 3 + r) = Some (S i r) \<and> data r5_wr (i * 3 + r) \<noteq> None"
      by (auto simp add: r5_defs buffer_of_def W_def S_def)
  qed
  have a: "admissible 5 3 4 1" by (simp add: admissible_5_3_4)
  have s: "alpha_sum sym_arith 5 3 W S 4 =
      Add (Add (Lit 0) (alpha_spec sym_arith (Lit (3 / 5)) (Lit 1)))
        (alpha_spec sym_arith (Lit (3 / 10)) (Lit 2))"
    by (simp add: alpha_sum_def weights_rmin_def weights_rmax_def c_int_def W_def S_def
        sym_arith_def upto.simps)
  have d: "data r5_w (4 * 3 + 1) = Some (Lit (3 / 5))" "data r5_sigma (4 * 3 + 1) = Some (Lit 1)"
    by (simp_all add: r5_defs buffer_of_def)
  from weights_alpha_values [OF r5_layout _ _ _ _ _ cont, of sym_arith] obtain wr_py' where
    A: "\<forall>i r. 4 \<le> i \<and> i \<le> 4 \<and> admissible 5 3 i r \<longrightarrow>
        alpha sym_arith (data r5_w) (i * 3 + r) (data r5_sigma) (i * 3 + r) =
          Inr (fdiv sym_arith (W i r)
                 (fmul sym_arith (fadd sym_arith (flit sym_arith (1 / 100000)) (S i r))
                          (fadd sym_arith (flit sym_arith (1 / 100000)) (S i r))))"
    and B: "weights sym_arith 4 4 r5_sigma r5_w r5_wr = Inr (Py_None, wr_py')"
    and C: "\<forall>i r. 4 \<le> i \<and> i \<le> 4 \<and> admissible 5 3 i r \<longrightarrow>
           data wr_py' (i * 3 + r) =
             Some (fdiv sym_arith (alpha_spec sym_arith (W i r) (S i r))
                    (alpha_sum sym_arith 5 3 W S i))"
    by auto
  have A1: "alpha sym_arith (data r5_w) (4 * 3 + 1) (data r5_sigma) (4 * 3 + 1) =
     Inr (Div (Lit (3 / 5))
            (Mul (Add (Lit (1 / 100000)) (Lit 1)) (Add (Lit (1 / 100000)) (Lit 1))))"
    using A [rule_format, of 4 1] a by (simp add: W_def S_def sym_arith_def)
  have C1: "data wr_py' (4 * 3 + 1) =
        Some (Div (Div (Lit (3 / 5))
                    (Mul (Add (Lit (1 / 100000)) (Lit 1)) (Add (Lit (1 / 100000)) (Lit 1))))
               (Add (Add (Lit 0)
                      (Div (Lit (3 / 5))
                        (Mul (Add (Lit (1 / 100000)) (Lit 1)) (Add (Lit (1 / 100000)) (Lit 1)))))
                    (Div (Lit (3 / 10))
                      (Mul (Add (Lit (1 / 100000)) (Lit 2)) (Add (Lit (1 / 100000)) (Lit 2))))))"
    using C [rule_format, of 4 1] a s by (simp add: W_def S_def alpha_spec_def sym_arith_def)
  show ?thesis
    using r5_layout a d A1 B C1 by blast
qed

section \<open>weights: rounding in the sum of the weights\<close>






lemmas wt_defs = wt_w_def wt_sigma_def wt_wr_def c_array_def
  NPY_IN_ARRAY_def NPY_CONTIGUOUS_def NPY_ALIGNED_def

lemmas xd_defs = xd_w_def xd_w_zero_def xd_sigma_def xd_sigma_neg_def xd_sigma_up_def xd_wr_def
  c_array_def NPY_IN_ARRAY_def NPY_CONTIGUOUS_def NPY_ALIGNED_def



lemma wt_layout: "c_layout wt_sigma [3, 2]" "c_layout wt_w [3, 2]" "c_layout wt_wr [3, 2]"
  by (simp_all add: c_layout_def wt_defs)

lemma admissible_3_2_1: "admissible 3 2 1 r = (r = 0 \<or> r = 1)"
  by (auto simp add: admissible_def weights_rmin_def weights_rmax_def c_int_def)




section \<open>weights: the divisors\<close>






section \<open>weights: a larger smoothness indicator\<close>

text \<open>
  Claim C9, as the code has it.  The order \<open>le\<close> is any relation on the values for
  which \<open>\<epsilon> + x\<close> is not below \<open>\<epsilon>\<close> and does not decrease when \<open>x\<close>
  grows from \<open>0.0\<close>, the square of a value that is not below \<open>\<epsilon>\<close> is above \<open>0.0\<close>
  and does not decrease when the value grows, and the quotient of \<open>w[i,r]\<close> by a
  divisor above \<open>0.0\<close> does not increase when the divisor grows; the order of IEEE
  doubles is one when \<open>w[i,r]\<close> is finite and not negative, with rounding and
  infinities as they are.  Two runs of weights on contiguous arrays of shape \<open>(N, k)\<close>
  with the same \<open>w\<close>, whose smoothness indicators at a processed cell \<open>i\<close> and a shift
  \<open>r\<close> of its range are \<open>S i r\<close>, not below \<open>0.0\<close>, and \<open>S' i r\<close>, not below
  \<open>S i r\<close>: both return None, the weight \<open>wr[i,r]\<close> each leaves is the value of its
  call of alpha divided by the accumulated sum of its cell, and the value of alpha of
  the second run is not above that of the first.
\<close>

theorem weights_monotone:
  fixes ar :: "'a arith" and le :: "'a \<Rightarrow> 'a \<Rightarrow> bool"
  assumes lay: "c_layout sigma_py [N, k]" "c_layout w_py [N, k]" "c_layout wr_py [N, k]"
    and lay': "c_layout sigma_py' [N, k]"
    and k: "1 \<le> k" "k \<le> N" "k < 2 ^ 31"
    and cells: "0 \<le> imin" "imax < N"
    and cont: "\<forall>i r. imin \<le> i \<and> i \<le> imax \<and> admissible N k i r \<longrightarrow>
      data w_py (i * k + r) = Some (W i r) \<and> data sigma_py (i * k + r) = Some (S i r) \<and>
      data sigma_py' (i * k + r) = Some (S' i r) \<and> data wr_py (i * k + r) \<noteq> None"
    and ir: "imin \<le> i" "i \<le> imax" "admissible N k i r"
    and addge: "\<forall>x. le (flit ar 0) x \<longrightarrow> le (flit ar (1 / 100000)) (fadd ar (flit ar (1 / 100000)) x)"
    and addmono: "\<forall>x y. le (flit ar 0) x \<and> le x y \<longrightarrow>
      le (fadd ar (flit ar (1 / 100000)) x) (fadd ar (flit ar (1 / 100000)) y)"
    and sqpos: "\<forall>x. le (flit ar (1 / 100000)) x \<longrightarrow> \<not> le (fmul ar x x) (flit ar 0)"
    and sqmono: "\<forall>x y. le (flit ar (1 / 100000)) x \<and> le x y \<longrightarrow>
      le (fmul ar x x) (fmul ar y y)"
    and divanti: "\<forall>d d'. \<not> le d (flit ar 0) \<and> le d d' \<longrightarrow>
      le (fdiv ar (W i r) d') (fdiv ar (W i r) d)"
    and sig: "le (flit ar 0) (S i r)" "le (S i r) (S' i r)"
  shows "\<exists>wr1 wr2 a a'.
     weights ar imin imax sigma_py w_py wr_py = Inr (Py_None, wr1) \<and>
     weights ar imin imax sigma_py' w_py wr_py = Inr (Py_None, wr2) \<and>
     alpha ar (data w_py) (i * k + r) (data sigma_py) (i * k + r) = Inr a \<and>
     alpha ar (data w_py) (i * k + r) (data sigma_py') (i * k + r) = Inr a' \<and>
     data wr1 (i * k + r) = Some (fdiv ar a (alpha_sum ar N k W S i)) \<and>
     data wr2 (i * k + r) = Some (fdiv ar a' (alpha_sum ar N k W S' i)) \<and>
     le a' a"
proof -
  define e where "e = flit ar (1 / 100000)"
  define a where "a = alpha_spec ar (W i r) (S i r)"
  define a' where "a' = alpha_spec ar (W i r) (S' i r)"
  have c: "data w_py (j * k + q) = Some (W j q) \<and> data sigma_py (j * k + q) = Some (S j q) \<and>
      data wr_py (j * k + q) \<noteq> None"
    if "imin \<le> j" "j \<le> imax" "admissible N k j q" for j q
    using cont that by blast
  have c': "data w_py (j * k + q) = Some (W j q) \<and> data sigma_py' (j * k + q) = Some (S' j q) \<and>
      data wr_py (j * k + q) \<noteq> None"
    if "imin \<le> j" "j \<le> imax" "admissible N k j q" for j q
    using cont that by blast
  from weights_total [OF lay k cells c, of ar] obtain wr1 where
    run1: "weights ar imin imax sigma_py w_py wr_py = Inr (Py_None, wr1)"
    and val1: "\<forall>i r. imin \<le> i \<and> i \<le> imax \<and> admissible N k i r \<longrightarrow>
        data wr1 (i * k + r) =
          Some (fdiv ar (alpha_spec ar (W i r) (S i r)) (alpha_sum ar N k W S i))"
    by blast
  from weights_total [OF lay' lay(2,3) k cells c', of ar] obtain wr2 where
    run2: "weights ar imin imax sigma_py' w_py wr_py = Inr (Py_None, wr2)"
    and val2: "\<forall>i r. imin \<le> i \<and> i \<le> imax \<and> admissible N k i r \<longrightarrow>
        data wr2 (i * k + r) =
          Some (fdiv ar (alpha_spec ar (W i r) (S' i r)) (alpha_sum ar N k W S' i))"
    by blast
  have al1: "alpha ar (data w_py) (i * k + r) (data sigma_py) (i * k + r) = Inr a"
    unfolding a_def using c [OF ir] by (intro alpha_Some) simp_all
  have al2: "alpha ar (data w_py) (i * k + r) (data sigma_py') (i * k + r) = Inr a'"
    unfolding a'_def using c' [OF ir] by (intro alpha_Some) simp_all
  have v1: "data wr1 (i * k + r) = Some (fdiv ar a (alpha_sum ar N k W S i))"
    unfolding a_def using val1 [rule_format, of i r] ir by (simp only: simp_thms)
  have v2: "data wr2 (i * k + r) = Some (fdiv ar a' (alpha_sum ar N k W S' i))"
    unfolding a'_def using val2 [rule_format, of i r] ir by (simp only: simp_thms)
  have es: "le e (fadd ar e (S i r))"
    using addge [folded e_def, rule_format, OF sig(1)] .
  have ss: "le (fadd ar e (S i r)) (fadd ar e (S' i r))"
    using addmono [folded e_def, rule_format, OF conjI, OF sig] .
  have dp: "\<not> le (fmul ar (fadd ar e (S i r)) (fadd ar e (S i r))) (flit ar 0)"
    using sqpos [folded e_def, rule_format, OF es] .
  have dm: "le (fmul ar (fadd ar e (S i r)) (fadd ar e (S i r)))
      (fmul ar (fadd ar e (S' i r)) (fadd ar e (S' i r)))"
    using sqmono [folded e_def, rule_format, OF conjI, OF es ss] .
  have "le (fdiv ar (W i r) (fmul ar (fadd ar e (S' i r)) (fadd ar e (S' i r))))
      (fdiv ar (W i r) (fmul ar (fadd ar e (S i r)) (fadd ar e (S i r))))"
    using divanti [rule_format, OF conjI, OF dp dm] .
  then have le: "le a' a" by (simp only: a_def a'_def alpha_spec_def e_def)
  show ?thesis
    using run1 run2 al1 al2 v1 v2 le by (intro exI conjI)
qed

lemma wt_up_layout: "c_layout wt_sigma_up [3, 2]"
  by (simp add: c_layout_def wt_sigma_up_def wt_defs)

theorem weights_monotone_witness:
  "c_layout wt_sigma [3, 2] \<and> c_layout wt_sigma_up [3, 2] \<and> c_layout wt_w [3, 2] \<and>
   c_layout wt_wr [3, 2] \<and> admissible 3 2 1 1 \<and>
   data wt_sigma (1 * 2 + 1) = Some 1 \<and> data wt_sigma_up (1 * 2 + 1) = Some 2 \<and>
   (\<exists>wr1 wr2 a a'.
     weights exact_arith 1 1 wt_sigma wt_w wt_wr = Inr (Py_None, wr1) \<and>
     weights exact_arith 1 1 wt_sigma_up wt_w wt_wr = Inr (Py_None, wr2) \<and>
     alpha exact_arith (data wt_w) (1 * 2 + 1) (data wt_sigma) (1 * 2 + 1) = Inr a \<and>
     alpha exact_arith (data wt_w) (1 * 2 + 1) (data wt_sigma_up) (1 * 2 + 1) = Inr a' \<and>
     data wr1 (1 * 2 + 1) =
       Some (a / alpha_sum exact_arith 3 2 (\<lambda>i r. 1 / 2) (\<lambda>i r. if r = 1 then 1 else 0) 1) \<and>
     data wr2 (1 * 2 + 1) =
       Some (a' / alpha_sum exact_arith 3 2 (\<lambda>i r. 1 / 2) (\<lambda>i r. if r = 1 then 2 else 0) 1) \<and>
     a' \<le> a)"
proof -
  define W :: "int \<Rightarrow> int \<Rightarrow> real" where "W = (\<lambda>i r. 1 / 2)"
  define S :: "int \<Rightarrow> int \<Rightarrow> real" where "S = (\<lambda>i r. if r = 1 then 1 else 0)"
  define S' :: "int \<Rightarrow> int \<Rightarrow> real" where "S' = (\<lambda>i r. if r = 1 then 2 else 0)"
  have cont: "\<forall>i r. 1 \<le> i \<and> i \<le> 1 \<and> admissible 3 2 i r \<longrightarrow>
      data wt_w (i * 2 + r) = Some (W i r) \<and> data wt_sigma (i * 2 + r) = Some (S i r) \<and>
      data wt_sigma_up (i * 2 + r) = Some (S' i r) \<and> data wt_wr (i * 2 + r) \<noteq> None"
  proof (intro allI impI)
    fix i r :: int
    assume "1 \<le> i \<and> i \<le> 1 \<and> admissible 3 2 i r"
    then have "i = 1" "r = 0 \<or> r = 1" by (auto simp: admissible_3_2_1)
    then show "data wt_w (i * 2 + r) = Some (W i r) \<and> data wt_sigma (i * 2 + r) = Some (S i r) \<and>
      data wt_sigma_up (i * 2 + r) = Some (S' i r) \<and> data wt_wr (i * 2 + r) \<noteq> None"
      by (auto simp add: wt_defs wt_sigma_up_def buffer_of_def W_def S_def S'_def)
  qed
  have adm: "admissible 3 2 1 1" by (simp add: admissible_3_2_1)
  have d: "data wt_sigma (1 * 2 + 1) = Some 1" "data wt_sigma_up (1 * 2 + 1) = Some 2"
    by (simp_all add: wt_defs wt_sigma_up_def buffer_of_def)
  have addge: "\<forall>x. flit exact_arith 0 \<le> x \<longrightarrow>
      flit exact_arith (1 / 100000) \<le> fadd exact_arith (flit exact_arith (1 / 100000)) x"
    by (simp add: exact_arith_def)
  have addmono: "\<forall>x y. flit exact_arith 0 \<le> x \<and> x \<le> y \<longrightarrow>
      fadd exact_arith (flit exact_arith (1 / 100000)) x
        \<le> fadd exact_arith (flit exact_arith (1 / 100000)) y"
    by (simp add: exact_arith_def)
  have e0: "(0::real) < real_of_rat (1 / 100000)" by (simp add: of_rat_divide)
  have sqpos: "\<forall>x. flit exact_arith (1 / 100000) \<le> x \<longrightarrow>
      \<not> fmul exact_arith x x \<le> flit exact_arith 0"
  proof (intro allI impI)
    fix x :: real assume "flit exact_arith (1 / 100000) \<le> x"
    then have "real_of_rat (1 / 100000) \<le> x" by (simp add: exact_arith_def)
    with e0 have "0 < x" by linarith
    then have "0 < x * x" by simp
    then show "\<not> fmul exact_arith x x \<le> flit exact_arith 0" by (simp add: exact_arith_def)
  qed
  have sqmono: "\<forall>x y. flit exact_arith (1 / 100000) \<le> x \<and> x \<le> y \<longrightarrow>
      fmul exact_arith x x \<le> fmul exact_arith y y"
  proof (intro allI impI)
    fix x y :: real assume "flit exact_arith (1 / 100000) \<le> x \<and> x \<le> y"
    then have "real_of_rat (1 / 100000) \<le> x" "x \<le> y" by (simp_all add: exact_arith_def)
    with e0 have "0 \<le> x" "x \<le> y" by linarith+
    then have "x * x \<le> y * y" by (intro mult_mono) auto
    then show "fmul exact_arith x x \<le> fmul exact_arith y y" by (simp add: exact_arith_def)
  qed
  have divanti: "\<forall>d d'. \<not> d \<le> flit exact_arith 0 \<and> d \<le> d' \<longrightarrow>
      fdiv exact_arith (W 1 1) d' \<le> fdiv exact_arith (W 1 1) d"
  proof (intro allI impI)
    fix d d' :: real assume "\<not> d \<le> flit exact_arith 0 \<and> d \<le> d'"
    then have "0 < d" "d \<le> d'" by (simp_all add: exact_arith_def)
    then have "(1 / 2) / d' \<le> (1 / 2) / d" by (intro divide_left_mono) auto
    then show "fdiv exact_arith (W 1 1) d' \<le> fdiv exact_arith (W 1 1) d"
      by (simp add: exact_arith_def W_def)
  qed
  have sig: "flit exact_arith 0 \<le> S 1 1" "S 1 1 \<le> S' 1 1"
    by (simp_all add: exact_arith_def S_def S'_def)
  from weights_monotone [where le = "(\<le>)", OF wt_layout wt_up_layout _ _ _ _ _ cont _ _ adm
      addge addmono sqpos sqmono divanti sig]
  obtain wr1 wr2 a a' where
    r: "weights exact_arith 1 1 wt_sigma wt_w wt_wr = Inr (Py_None, wr1)"
     "weights exact_arith 1 1 wt_sigma_up wt_w wt_wr = Inr (Py_None, wr2)"
     "alpha exact_arith (data wt_w) (1 * 2 + 1) (data wt_sigma) (1 * 2 + 1) = Inr a"
     "alpha exact_arith (data wt_w) (1 * 2 + 1) (data wt_sigma_up) (1 * 2 + 1) = Inr a'"
     "data wr1 (1 * 2 + 1) = Some (fdiv exact_arith a (alpha_sum exact_arith 3 2 W S 1))"
     "data wr2 (1 * 2 + 1) = Some (fdiv exact_arith a' (alpha_sum exact_arith 3 2 W S' 1))"
     "a' \<le> a"
    by auto
  have q: "fdiv exact_arith x y = x / y" for x y by (simp add: exact_arith_def)
  show ?thesis
    using wt_layout wt_up_layout adm d r unfolding q W_def S_def S'_def by blast
qed

text \<open>
  Cell 0 of three cells with \<open>k = 2\<close> has the single shift 0: its weight is
  \<open>alpha / (0 + alpha) = 1\<close> with \<open>sigma[0,0] = 0\<close> and with \<open>sigma[0,0] = 1\<close>,
  everything else the same.  It has not decreased.
\<close>

theorem weights_monotone_counterexample:
  "data xd_sigma 0 = Some (Fin 0) \<and> data xd_sigma_up 0 = Some (Fin 1) \<and>
   map (data xd_sigma_up) [1, 2, 3, 4, 5] = map (data xd_sigma) [1, 2, 3, 4, 5] \<and>
   weights xd_arith 0 0 xd_sigma xd_w xd_wr =
     Inr (Py_None, xd_wr\<lparr>data := (data xd_wr)(0 \<mapsto> Fin 1)\<rparr>) \<and>
   weights xd_arith 0 0 xd_sigma_up xd_w xd_wr =
     Inr (Py_None, xd_wr\<lparr>data := (data xd_wr)(0 \<mapsto> Fin 1)\<rparr>)"
  by (simp add: xd_defs arith_defs of_rat_divide weights_run_simps)

end
